theory Spec2Isabelle
  imports Complex_Main
begin

section \<open>Data model of the game server\<close>

text \<open>
  The server keeps one \<open>RoomState\<close> object per room in the map \<open>rooms\<close> (room code to
  room) and the map \<open>socketToRoom\<close> (socket id to room code). The keys of \<open>votes\<close> and of
  the leaderboard are socket ids, which the socket library generates (twenty characters
  of the URL-safe base64 alphabet): they are never array indices, and an id that is the
  name of an inherited property is left out of the model. For such keys a JavaScript
  object used as a dictionary enumerates its keys in insertion order, so \<open>votes\<close> is an
  association list in insertion order; the leaderboard is only ever looked up, so it is a
  finite map. The accused identity of a vote is sent by the client and can be any string:
  the tally of \<open>computeVoting\<close>, whose keys are the accused identities, is modelled as the
  JavaScript object it is, with inherited properties and the enumeration order of its
  keys. JavaScript numbers that count (wins, losses, round, turn index) are natural
  numbers, timestamps are integers, \<open>null\<close> and \<open>undefined\<close> are \<open>None\<close>.

  A string is the list of its UTF-16 code units, one \<open>char\<close> for each; a \<open>char\<close> has
  eight bits, so the strings of the model are the JavaScript strings whose code units are
  below 256 (the characters up to U+00FF), and \<open>of_char\<close> gives the code unit.
\<close>

datatype Phase = Lobby | Drawing | Voting | Results

datatype Tool = Brush | Eraser

record DrawEvent =
  x0 :: real
  y0 :: real
  x1 :: real
  y1 :: real
  color :: string
  sizeD :: real
  tool :: Tool

record Score =
  wins :: nat
  losses :: nat

text \<open>A player has the fields \<open>wins\<close> and \<open>losses\<close> of a score; \<open>pid\<close> is the field \<open>id\<close>.\<close>

record Player = Score +
  pid :: string
  name :: string
  isHost :: bool
  connected :: bool

record ChatMessage =
  playerId :: string
  senderName :: string
  message :: string
  ts :: int

text \<open>
  \<open>timerRef\<close> is the handle of the timeout created last for the room. \<open>timeouts\<close> is
  the part of the runtime's timeout table that belongs to the room: handle \<open>h\<close> is pending
  iff \<open>timeouts ! h\<close>. The callback of each timeout captures the room object, so the table
  is kept with the room. \<open>roundNo\<close> is the field \<open>round\<close>.
\<close>

record RoomState =
  code :: string
  players :: "Player list"
  phase :: Phase
  hostId :: string
  turnIndex :: nat
  roundNo :: nat
  imposterId :: "string option"
  realWord :: "string option"
  fakeWord :: "string option"
  currentDrawerId :: "string option"
  drawing :: "DrawEvent list"
  chat :: "ChatMessage list"
  votes :: "(string \<times> string) list"
  leaderboard :: "string \<rightharpoonup> Score"
  turnEndsAt :: "int option"
  timerRef :: "nat option"
  timeouts :: "bool list"

record Server =
  rooms :: "string \<rightharpoonup> RoomState"
  socketToRoom :: "string \<rightharpoonup> string"

definition TURN_MS :: int where
  "TURN_MS = 20000"

subsection \<open>Strings\<close>

text \<open>
  \<open>toLowerCase\<close>: among the characters up to U+00FF the upper-case letters are A to Z
  and U+00C0 to U+00DE without the multiplication sign U+00D7; each has its lower-case
  letter 32 places further on, and every other character is kept.
\<close>

definition lower_char :: "char \<Rightarrow> char" where
  "lower_char c =
     (if ((65::nat) \<le> of_char c \<and> of_char c \<le> (90::nat)) \<or>
         ((192::nat) \<le> of_char c \<and> of_char c \<le> (222::nat) \<and> of_char c \<noteq> (215::nat))
      then char_of (of_char c + (32::nat)) else c)"

definition toLowerCase :: "string \<Rightarrow> string" where
  "toLowerCase s = map lower_char s"

text \<open>
  \<open>toUpperCase\<close>: the lower-case letters a to z and U+00E0 to U+00FE without the division
  sign U+00F7 have their upper-case letter 32 places before them, and the sharp s U+00DF
  becomes \<open>SS\<close>. The upper-case forms of the micro sign U+00B5 and of U+00FF lie above
  U+00FF: the result is then no string of the model (\<open>None\<close>), and no room code of the
  model equals it.
\<close>

definition upper_units :: "char \<Rightarrow> string" where
  "upper_units c =
     (if of_char c = (223::nat) then ''SS''
      else if ((97::nat) \<le> of_char c \<and> of_char c \<le> (122::nat)) \<or>
              ((224::nat) \<le> of_char c \<and> of_char c \<le> (254::nat) \<and> of_char c \<noteq> (247::nat))
      then [char_of (of_char c - (32::nat))] else [c])"

definition toUpperCase :: "string \<Rightarrow> string option" where
  "toUpperCase s =
     (if \<exists>c \<in> set s. of_char c = (181::nat) \<or> of_char c = (255::nat) then None
      else Some (concat (map upper_units s)))"

text \<open>
  \<open>trim\<close> removes white space and line terminators at both ends; up to U+00FF these are
  the code units 9 to 13, the space 32 and the no-break space 160.
\<close>

definition is_space :: "char \<Rightarrow> bool" where
  "is_space c = (of_char c \<in> {9, 10, 11, 12, 13, 32, 160::nat})"

definition trim :: "string \<Rightarrow> string" where
  "trim s = rev (dropWhile is_space (rev (dropWhile is_space s)))"

text \<open>\<open>name?.slice(0, 24) || dflt\<close>: a missing or empty name falls back to the default.\<close>

definition name_or :: "string option \<Rightarrow> string \<Rightarrow> string" where
  "name_or nm dflt =
     (case nm of None \<Rightarrow> dflt
      | Some s \<Rightarrow> (if take 24 s = [] then dflt else take 24 s))"

subsection \<open>Objects as dictionaries\<close>

text \<open>
  The own properties of an object, in the order of their creation.
  \<open>obj[k] = v\<close>: an existing key keeps its place, a new key goes last.
\<close>

fun obj_set :: "(string \<times> 'v) list \<Rightarrow> string \<Rightarrow> 'v \<Rightarrow> (string \<times> 'v) list" where
  "obj_set [] k v = [(k, v)]"
| "obj_set ((k', v') # kvs) k v =
     (if k' = k then (k, v) # kvs else (k', v') # obj_set kvs k v)"

text \<open>
  An array index is the decimal numeral, without a leading zero, of a number up to
  \<open>2^32 - 2\<close>. \<open>Object.entries\<close> lists the own properties whose key is an array index
  first, by ascending index, and then the other own properties in the order of their
  creation.
\<close>

definition is_digit :: "char \<Rightarrow> bool" where
  "is_digit c = ((48::nat) \<le> of_char c \<and> of_char c \<le> (57::nat))"

definition index_value :: "string \<Rightarrow> int" where
  "index_value s = foldl (\<lambda>n c. 10 * n + (of_char c - 48)) 0 s"

definition is_array_index :: "string \<Rightarrow> bool" where
  "is_array_index s =
     (s \<noteq> [] \<and> list_all is_digit s \<and> (length s = 1 \<or> hd s \<noteq> CHR ''0'') \<and>
      index_value s \<le> 4294967294)"

definition own_entries :: "(string \<times> 'v) list \<Rightarrow> (string \<times> 'v) list" where
  "own_entries kvs =
     sort_key (\<lambda>e. index_value (fst e)) (filter (\<lambda>e. is_array_index (fst e)) kvs) @
     filter (\<lambda>e. \<not> is_array_index (fst e)) kvs"

text \<open>
  The properties that an object literal inherits from \<open>Object.prototype\<close>. All are
  functions, but \<open>__proto__\<close>, an accessor whose getter returns the prototype object and
  whose setter ignores a value that is neither an object nor \<open>null\<close>.
\<close>

definition inherited_names :: "string list" where
  "inherited_names =
     [''constructor'', ''__defineGetter__'', ''__defineSetter__'', ''hasOwnProperty'',
      ''__lookupGetter__'', ''__lookupSetter__'', ''isPrototypeOf'',
      ''propertyIsEnumerable'', ''toString'', ''valueOf'', ''__proto__'',
      ''toLocaleString'']"

text \<open>A key for which an object literal behaves as a dictionary in insertion order.\<close>

definition plain_key :: "string \<Rightarrow> bool" where
  "plain_key k = (\<not> is_array_index k \<and> k \<notin> set inherited_names)"

subsection \<open>The word lists\<close>

definition WORDS :: "string list" where
  "WORDS = [''Tisch'', ''Katze'', ''Auto'', ''Baum'', ''Haus'', ''Brot'', ''Lampe'',
     ''Brille'', ''Fahrrad'', ''Sonne'', ''Blume'', ''Schule'', ''Uhr'', ''Telefon'',
     ''Berg'', ''Fenster'', ''Flasche'', ''Zug'', ''Stuhl'', ''Apfel'']"

definition FAKE_WORDS :: "string list" where
  "FAKE_WORDS = [''Rakete'', ''Nebel'', ''Roboter'', ''Wolke'', ''Insel'', ''Pyramide'',
     ''Drache'', ''Magnet'', ''Stern'', ''Tiger'', ''Kompass'', ''Vulkan'', ''Palme'',
     ''Mikrofon'', ''Traktor'', ''Anker'', ''Planet'', ''Komet'', ''Klavier'', ''Tunnel'']"

fun indexOf :: "'a list \<Rightarrow> 'a \<Rightarrow> nat" where
  "indexOf [] y = 0"
| "indexOf (x # xs) y = (if x = y then 0 else Suc (indexOf xs y))"

text \<open>
  \<open>pickWordPair\<close>: the arguments stand for the two random draws; \<open>i mod n\<close> ranges over
  the indices that \<open>Math.floor(Math.random() * n)\<close> can return. \<open>indexOf\<close> is only
  called on a member of the list.
\<close>

definition pickWordPair :: "nat \<Rightarrow> nat \<Rightarrow> string \<times> string" where
  "pickWordPair i j =
     (let rw = WORDS ! (i mod length WORDS);
          fw = FAKE_WORDS ! (j mod length FAKE_WORDS);
          fw' = (if fw = rw
                 then FAKE_WORDS ! ((indexOf FAKE_WORDS fw + 1) mod length FAKE_WORDS)
                 else fw)
      in (rw, fw'))"

section \<open>Operations on one room\<close>

subsection \<open>roomView\<close>

record LeaderRow =
  row_id :: string
  row_name :: string
  row_wins :: nat
  row_losses :: nat

record RoomView =
  v_code :: string
  v_phase :: Phase
  v_players :: "Player list"
  v_turnIndex :: nat
  v_round :: nat
  v_imposterId :: "string option"
  v_currentDrawerId :: "string option"
  v_drawing :: "DrawEvent list"
  v_chat :: "ChatMessage list"
  v_turnEndsAt :: "int option"
  v_leaderboard :: "LeaderRow list"

definition leader_row :: "RoomState \<Rightarrow> Player \<Rightarrow> LeaderRow" where
  "leader_row room p =
     \<lparr> row_id = pid p, row_name = name p,
       row_wins = (case leaderboard room (pid p) of Some e \<Rightarrow> wins e | None \<Rightarrow> wins p),
       row_losses = (case leaderboard room (pid p) of Some e \<Rightarrow> losses e | None \<Rightarrow> losses p) \<rparr>"

definition roomView :: "RoomState \<Rightarrow> RoomView" where
  "roomView room =
     \<lparr> v_code = code room,
       v_phase = phase room,
       v_players = players room,
       v_turnIndex = turnIndex room,
       v_round = roundNo room,
       v_imposterId = (if phase room = Results then imposterId room else None),
       v_currentDrawerId = currentDrawerId room,
       v_drawing = drawing room,
       v_chat = drop (length (chat room) - 60) (chat room),
       v_turnEndsAt = turnEndsAt room,
       v_leaderboard = map (leader_row room) (players room) \<rparr>"

subsection \<open>The turn timer\<close>

text \<open>\<open>clearTimer\<close>: clearing a handle that has fired or was cleared changes nothing.\<close>

definition clearTimer :: "RoomState \<Rightarrow> RoomState" where
  "clearTimer room =
     (case timerRef room of
        None \<Rightarrow> room
      | Some h \<Rightarrow> room\<lparr>timeouts := (timeouts room)[h := False]\<rparr>)"

text \<open>\<open>room.timerRef = setTimeout(...)\<close>: a new pending handle.\<close>

definition armTimer :: "RoomState \<Rightarrow> RoomState" where
  "armTimer room =
     room\<lparr>timerRef := Some (length (timeouts room)), timeouts := timeouts room @ [True]\<rparr>"

definition startTurn :: "int \<Rightarrow> RoomState \<Rightarrow> RoomState" where
  "startTurn now room =
     (if players room = [] then room
      else if turnIndex room \<ge> length (players room)
      then room\<lparr>phase := Voting, currentDrawerId := None, turnEndsAt := None\<rparr>
      else armTimer (clearTimer
             (room\<lparr>phase := Drawing,
                   currentDrawerId := Some (pid (players room ! turnIndex room)),
                   turnEndsAt := Some (now + TURN_MS),
                   drawing := []\<rparr>)))"

text \<open>The callback given to \<open>setTimeout\<close> in \<open>startTurn\<close>.\<close>

definition timerCallback :: "int \<Rightarrow> RoomState \<Rightarrow> RoomState" where
  "timerCallback now room = startTurn now (room\<lparr>turnIndex := turnIndex room + 1\<rparr>)"

text \<open>The runtime runs the callback of a pending handle once; other handles never fire.\<close>

definition timerFires :: "nat \<Rightarrow> int \<Rightarrow> RoomState \<Rightarrow> RoomState" where
  "timerFires h now room =
     (if h < length (timeouts room) \<and> timeouts room ! h
      then timerCallback now (room\<lparr>timeouts := (timeouts room)[h := False]\<rparr>)
      else room)"

subsection \<open>startGame\<close>

text \<open>\<open>r\<close>, \<open>i\<close> and \<open>j\<close> stand for the random draws, \<open>now\<close> for the clock.\<close>

definition startGame :: "nat \<Rightarrow> nat \<Rightarrow> nat \<Rightarrow> int \<Rightarrow> RoomState \<Rightarrow> RoomState" where
  "startGame r i j now room =
     (if length (players room) < 3 then room
      else
        let imposter = players room ! (r mod length (players room));
            (rw, fw) = pickWordPair i j
        in startTurn now
             (room\<lparr>roundNo := roundNo room + 1, turnIndex := 0, votes := [],
                   imposterId := Some (pid imposter),
                   realWord := Some rw, fakeWord := Some fw\<rparr>))"

subsection \<open>computeVoting\<close>

text \<open>
  A value of the tally is a count or, once an inherited property was read, a text that
  is no numeral: a function or an object plus \<open>1\<close> is the concatenation of its text
  and \<open>1\<close>, and so is that text plus \<open>1\<close>.
\<close>

datatype TallyVal = Count nat | Text

text \<open>
  \<open>tally[targetId] = (tally[targetId] ?? 0) + 1\<close>, where \<open>tally\<close> starts as \<open>{}\<close>. The
  read finds the own property, or else the inherited one, or else \<open>undefined\<close>. The
  write creates or updates the own property; for \<open>__proto__\<close> it calls the inherited
  setter, which ignores the text, so that the tally stays as it is.
\<close>

definition tally_add :: "(string \<times> TallyVal) list \<Rightarrow> string \<Rightarrow> (string \<times> TallyVal) list" where
  "tally_add tally targetId =
     (if targetId = ''__proto__'' then tally
      else obj_set tally targetId
             (case map_of tally targetId of
                Some (Count n) \<Rightarrow> Count (n + 1)
              | Some Text \<Rightarrow> Text
              | None \<Rightarrow> (if targetId \<in> set inherited_names then Text else Count 1)))"

text \<open>The \<open>forEach\<close> over \<open>Object.values(room.votes)\<close>.\<close>

definition tally_of :: "(string \<times> string) list \<Rightarrow> (string \<times> TallyVal) list" where
  "tally_of vs = foldl tally_add [] (map snd vs)"

text \<open>
  \<open>Object.entries(tally).sort((a, b) => b[1] - a[1])[0]\<close>. When every value is a count
  the sort is stable and puts the larger count first. When a value is a text the
  comparison function returns \<open>NaN\<close>: it is no consistent comparison function, and the
  language leaves the order to the implementation; \<open>ch\<close> stands for the implementation's
  choice of the entry that comes first.
\<close>

definition count_of :: "TallyVal \<Rightarrow> nat" where
  "count_of v = (case v of Count n \<Rightarrow> n | Text \<Rightarrow> 0)"

definition first_sorted :: "nat \<Rightarrow> (string \<times> TallyVal) list \<Rightarrow> (string \<times> TallyVal) option" where
  "first_sorted ch es =
     (if es = [] then None
      else if list_all (\<lambda>e. snd e \<noteq> Text) es
      then (case sort_key (\<lambda>e. - int (count_of (snd e))) es of
              [] \<Rightarrow> None | e # _ \<Rightarrow> Some e)
      else Some (es ! (ch mod length es)))"

text \<open>\<open>sorted[0]?.[0]\<close>\<close>

definition suspected :: "nat \<Rightarrow> RoomState \<Rightarrow> string option" where
  "suspected ch room =
     map_option fst (first_sorted ch (own_entries (tally_of (votes room))))"

text \<open>
  \<open>suspected !== room.imposterId\<close>: \<open>undefined\<close> is different from \<open>null\<close> and from every
  string.
\<close>

definition imposterWins :: "nat \<Rightarrow> RoomState \<Rightarrow> bool" where
  "imposterWins ch room =
     (case suspected ch room of None \<Rightarrow> True | Some s \<Rightarrow> imposterId room \<noteq> Some s)"

definition entry_or :: "(string \<rightharpoonup> Score) \<Rightarrow> string \<Rightarrow> Score \<Rightarrow> Score" where
  "entry_or lb k dflt = (case lb k of Some e \<Rightarrow> e | None \<Rightarrow> dflt)"

definition add_win :: "Score \<Rightarrow> Score" where
  "add_win e = e\<lparr>wins := wins e + 1\<rparr>"

definition add_loss :: "Score \<Rightarrow> Score" where
  "add_loss e = e\<lparr>losses := losses e + 1\<rparr>"

text \<open>The body of the \<open>forEach\<close> over the players in \<open>computeVoting\<close>.\<close>

definition score_vote :: "bool \<Rightarrow> string option \<Rightarrow> (string \<rightharpoonup> Score) \<Rightarrow> Player \<Rightarrow> (string \<rightharpoonup> Score)" where
  "score_vote iw imp lb p =
     (let e = entry_or lb (pid p) \<lparr>wins = wins p, losses = losses p\<rparr>
      in lb(pid p \<mapsto>
           (if iw then (if Some (pid p) = imp then add_win e else add_loss e)
            else (if Some (pid p) = imp then add_loss e else add_win e))))"

text \<open>\<open>if (room.imposterId)\<close>: \<open>null\<close> and the empty string are falsy.\<close>

definition truthy :: "string option \<Rightarrow> bool" where
  "truthy x = (case x of None \<Rightarrow> False | Some s \<Rightarrow> s \<noteq> [])"

definition computeVoting :: "nat \<Rightarrow> RoomState \<Rightarrow> RoomState" where
  "computeVoting ch room =
     (let lb = (if truthy (imposterId room)
                then foldl (score_vote (imposterWins ch room) (imposterId room))
                       (leaderboard room) (players room)
                else leaderboard room)
      in room\<lparr>leaderboard := lb, phase := Results, turnEndsAt := None\<rparr>)"

subsection \<open>The bodies of the handlers, once the room is found\<close>

text \<open>\<open>vote:submit\<close>\<close>

definition vote_submit_room :: "string \<Rightarrow> string \<Rightarrow> nat \<Rightarrow> RoomState \<Rightarrow> RoomState" where
  "vote_submit_room sid targetId ch room =
     (if phase room \<noteq> Voting then room
      else
        let room' = room\<lparr>votes := obj_set (votes room) sid targetId\<rparr>
        in if length (votes room') \<ge> length (players room')
           then computeVoting ch room' else room')"

text \<open>The body of the \<open>forEach\<close> over the players in \<open>imposter:guess\<close>.\<close>

definition score_guess :: "string \<Rightarrow> (string \<rightharpoonup> Score) \<Rightarrow> Player \<Rightarrow> (string \<rightharpoonup> Score)" where
  "score_guess sid lb p =
     (let e = entry_or lb (pid p) \<lparr>wins = 0, losses = 0\<rparr>
      in lb(pid p \<mapsto> (if pid p = sid then add_win e else add_loss e)))"

text \<open>
  \<open>imposter:guess\<close>: the second component is the reply \<open>{ correct }\<close>, \<open>None\<close> when the
  handler returns before the callback.
\<close>

definition guess_correct :: "string \<Rightarrow> RoomState \<Rightarrow> bool" where
  "guess_correct guess room =
     (case realWord room of
        None \<Rightarrow> False
      | Some w \<Rightarrow> toLowerCase (trim guess) = toLowerCase w)"

definition imposter_guess_room :: "string \<Rightarrow> string \<Rightarrow> RoomState \<Rightarrow> RoomState \<times> bool option" where
  "imposter_guess_room sid guess room =
     (if Some sid \<noteq> imposterId room then (room, None)
      else if guess_correct guess room
      then (room\<lparr>phase := Results,
                  leaderboard := foldl (score_guess sid) (leaderboard room) (players room)\<rparr>,
            Some True)
      else (room, Some False))"

text \<open>\<open>draw:stroke\<close>\<close>

definition draw_stroke_room :: "string \<Rightarrow> DrawEvent \<Rightarrow> RoomState \<Rightarrow> RoomState" where
  "draw_stroke_room sid stroke room =
     (if currentDrawerId room \<noteq> Some sid \<or> phase room \<noteq> Drawing then room
      else room\<lparr>drawing := drawing room @ [stroke]\<rparr>)"

text \<open>\<open>chat:send\<close>\<close>

definition chat_send_room :: "string \<Rightarrow> string \<Rightarrow> int \<Rightarrow> RoomState \<Rightarrow> RoomState" where
  "chat_send_room sid msg now room =
     (case find (\<lambda>p. pid p = sid) (players room) of
        None \<Rightarrow> room
      | Some player \<Rightarrow>
          room\<lparr>chat := chat room @
            [\<lparr>playerId = sid, senderName = name player, message = take 200 msg, ts = now\<rparr>]\<rparr>)"

text \<open>\<open>game:start\<close> and \<open>round:next\<close> have the same body.\<close>

definition game_start_room :: "string \<Rightarrow> nat \<Rightarrow> nat \<Rightarrow> nat \<Rightarrow> int \<Rightarrow> RoomState \<Rightarrow> RoomState" where
  "game_start_room sid r i j now room =
     (if hostId room \<noteq> sid then room else startGame r i j now room)"

text \<open>
  \<open>disconnect\<close>, up to the test for an empty room: the player and the leaderboard entry
  go, and the host flag moves to the first player left.
\<close>

definition remove_player :: "string \<Rightarrow> RoomState \<Rightarrow> RoomState" where
  "remove_player sid room =
     (let ps = filter (\<lambda>p. pid p \<noteq> sid) (players room);
          room1 = room\<lparr>players := ps, leaderboard := (leaderboard room)(sid := None)\<rparr>
      in case ps of
           [] \<Rightarrow> room1
         | p # ps' \<Rightarrow>
             (if hostId room1 = sid
              then room1\<lparr>hostId := pid p, players := p\<lparr>isHost := True\<rparr> # ps'\<rparr>
              else room1))"

text \<open>
  The rest of \<open>disconnect\<close>: the room object as the handler leaves it, and whether it was
  deleted from \<open>rooms\<close>.
\<close>

definition leave_room :: "string \<Rightarrow> RoomState \<Rightarrow> RoomState \<times> bool" where
  "leave_room sid room =
     (let room' = remove_player sid room
      in if players room' = [] then (clearTimer room', True) else (room', False))"

section \<open>The server\<close>

definition init :: Server where
  "init = \<lparr>rooms = Map.empty, socketToRoom = Map.empty\<rparr>"

text \<open>
  \<open>socketToRoom.get(socket.id)\<close>, \<open>if (!code) return\<close>, \<open>rooms.get(code)\<close>,
  \<open>if (!room) return\<close>.
\<close>

definition lookup_room :: "string \<Rightarrow> Server \<Rightarrow> (string \<times> RoomState) option" where
  "lookup_room sid s =
     (case socketToRoom s sid of
        None \<Rightarrow> None
      | Some c \<Rightarrow>
          (if c = [] then None
           else case rooms s c of None \<Rightarrow> None | Some room \<Rightarrow> Some (c, room)))"

definition on_room :: "string \<Rightarrow> (RoomState \<Rightarrow> RoomState) \<Rightarrow> Server \<Rightarrow> Server" where
  "on_room sid f s =
     (case lookup_room sid s of
        None \<Rightarrow> s
      | Some (c, room) \<Rightarrow> s\<lparr>rooms := (rooms s)(c \<mapsto> f room)\<rparr>)"

definition new_player :: "string \<Rightarrow> string \<Rightarrow> bool \<Rightarrow> Player" where
  "new_player sid nm host =
     \<lparr>wins = 0, losses = 0, pid = sid, name = nm, isHost = host, connected = True\<rparr>"

definition new_room :: "string \<Rightarrow> string option \<Rightarrow> string \<Rightarrow> RoomState" where
  "new_room sid nm c =
     \<lparr>code = c,
      players = [new_player sid (name_or nm ''Host'') True],
      phase = Lobby, hostId = sid, turnIndex = 0, roundNo = 0,
      imposterId = None, realWord = None, fakeWord = None, currentDrawerId = None,
      drawing = [], chat = [], votes = [],
      leaderboard = [sid \<mapsto> \<lparr>wins = 0, losses = 0\<rparr>],
      turnEndsAt = None, timerRef = None, timeouts = []\<rparr>"

text \<open>
  \<open>room:create\<close>: \<open>c\<close> stands for the value of \<open>makeRoomCode()\<close>, six characters of the
  alphabet drawn at random by the library. The second component is the reply.
\<close>

definition room_create :: "string \<Rightarrow> string option \<Rightarrow> string \<Rightarrow> Server \<Rightarrow> Server \<times> (string \<times> string)" where
  "room_create sid nm c s =
     (s\<lparr>rooms := (rooms s)(c \<mapsto> new_room sid nm c),
        socketToRoom := (socketToRoom s)(sid \<mapsto> c)\<rparr>,
      (c, sid))"

text \<open>\<open>room:join\<close>: the reply is the error message or the room code and the identity.\<close>

definition room_join :: "string \<Rightarrow> string option \<Rightarrow> string option \<Rightarrow> Server \<Rightarrow> Server \<times> (string + string \<times> string)" where
  "room_join sid cd nm s =
     (case cd of
        None \<Rightarrow> (s, Inl ''Lobby nicht gefunden.'')
      | Some c \<Rightarrow>
          (case toUpperCase c of
             None \<Rightarrow> (s, Inl ''Lobby nicht gefunden.'')
           | Some k \<Rightarrow>
               (case rooms s k of
                  None \<Rightarrow> (s, Inl ''Lobby nicht gefunden.'')
                | Some room \<Rightarrow>
                    (let room' = room\<lparr>players := players room @
                                        [new_player sid (name_or nm ''Spieler'') False],
                                      leaderboard := (leaderboard room)
                                        (sid \<mapsto> \<lparr>wins = 0, losses = 0\<rparr>)\<rparr>
                     in (s\<lparr>rooms := (rooms s)(k \<mapsto> room'),
                           socketToRoom := (socketToRoom s)(sid \<mapsto> code room')\<rparr>,
                         Inr (code room', sid))))))"

definition disconnect :: "string \<Rightarrow> Server \<Rightarrow> Server" where
  "disconnect sid s =
     (case socketToRoom s sid of
        None \<Rightarrow> s
      | Some c \<Rightarrow>
          (if c = [] then s
           else
             let s1 = s\<lparr>socketToRoom := (socketToRoom s)(sid := None)\<rparr>
             in case rooms s c of
                  None \<Rightarrow> s1
                | Some room \<Rightarrow>
                    (case leave_room sid room of
                       (room', deleted) \<Rightarrow>
                         (if deleted then s1\<lparr>rooms := (rooms s)(c := None)\<rparr>
                          else s1\<lparr>rooms := (rooms s)(c \<mapsto> room')\<rparr>))))"

text \<open>
  What the server can receive: the socket events, each with the sender's socket id, the
  random draws and the clock reading it uses (for a vote, the implementation's choice in
  the sort of the tally), and the expiry of a timeout of a room. No
  handler can reach a room object that is no longer in \<open>rooms\<close>, so such an object
  and its timeouts are not followed further.
\<close>

datatype Event =
    RoomCreate string "string option" string
  | RoomJoin string "string option" "string option"
  | GameStart string nat nat nat int
  | DrawStroke string DrawEvent
  | ChatSend string string int
  | VoteSubmit string string nat
  | ImposterGuess string string
  | RoundNext string nat nat nat int
  | Disconnect string
  | TimerExpired string nat int

fun step :: "Event \<Rightarrow> Server \<Rightarrow> Server" where
  "step (RoomCreate sid nm c) s = fst (room_create sid nm c s)"
| "step (RoomJoin sid cd nm) s = fst (room_join sid cd nm s)"
| "step (GameStart sid r i j now) s = on_room sid (game_start_room sid r i j now) s"
| "step (DrawStroke sid stroke) s = on_room sid (draw_stroke_room sid stroke) s"
| "step (ChatSend sid msg now) s = on_room sid (chat_send_room sid msg now) s"
| "step (VoteSubmit sid targetId ch) s = on_room sid (vote_submit_room sid targetId ch) s"
| "step (ImposterGuess sid guess) s = on_room sid (\<lambda>room. fst (imposter_guess_room sid guess room)) s"
| "step (RoundNext sid r i j now) s = on_room sid (game_start_room sid r i j now) s"
| "step (Disconnect sid) s = disconnect sid s"
| "step (TimerExpired c h now) s =
     (case rooms s c of
        None \<Rightarrow> s
      | Some room \<Rightarrow> s\<lparr>rooms := (rooms s)(c \<mapsto> timerFires h now room)\<rparr>)"

definition exec :: "Server \<Rightarrow> Event list \<Rightarrow> Server" where
  "exec s evs = foldl (\<lambda>s e. step e s) s evs"

inductive reachable :: "Server \<Rightarrow> bool" where
  reachable_init: "reachable init"
| reachable_step: "reachable s \<Longrightarrow> reachable (step e s)"

section \<open>Invariants of a room\<close>

text \<open>
  One player carries the host flag and every flagged player has the host identity; at
  most the timeout in \<open>timerRef\<close> is pending; every voter has one entry in the vote map.
\<close>

definition host_ok :: "RoomState \<Rightarrow> bool" where
  "host_ok room =
     (length (filter isHost (players room)) = 1 \<and>
      (\<forall>p \<in> set (players room). isHost p \<longrightarrow> pid p = hostId room))"

definition timer_ok :: "RoomState \<Rightarrow> bool" where
  "timer_ok room =
     (\<forall>h < length (timeouts room). timeouts room ! h \<longrightarrow> timerRef room = Some h)"

definition votes_ok :: "RoomState \<Rightarrow> bool" where
  "votes_ok room = distinct (map fst (votes room))"

definition room_inv :: "RoomState \<Rightarrow> bool" where
  "room_inv room = (host_ok room \<and> timer_ok room \<and> votes_ok room)"

section \<open>Concrete runs\<close>

text \<open>
  Alice creates the room, Bob and Cara join it, Alice starts the game: the draws make Bob
  the imposter, the real word \<open>Tisch\<close> and the decoy \<open>Rakete\<close>.
\<close>

definition lobby_trace :: "Event list" where
  "lobby_trace =
     [RoomCreate ''a'' (Some ''Alice'') ''ABCD23'',
      RoomJoin ''b'' (Some ''abcd23'') (Some ''Bob''),
      RoomJoin ''c'' (Some ''ABCD23'') (Some ''Cara'')]"

definition drawing_trace :: "Event list" where
  "drawing_trace = lobby_trace @ [GameStart ''a'' 1 0 0 1000]"

definition room_of :: "Event list \<Rightarrow> RoomState" where
  "room_of evs = the (rooms (exec init evs) ''ABCD23'')"

text \<open>
  Bob, the imposter, guesses the word during the first turn; then the timeout of that turn
  expires.
\<close>

definition guess_trace :: "Event list" where
  "guess_trace = drawing_trace @ [ImposterGuess ''b'' '' tisch '']"

definition guess_timer_trace :: "Event list" where
  "guess_timer_trace = guess_trace @ [TimerExpired ''ABCD23'' 0 21100]"

text \<open>Bob and Cara leave during the first turn, so that Alice is the last player.\<close>

definition last_player_trace :: "Event list" where
  "last_player_trace = drawing_trace @ [Disconnect ''b'', Disconnect ''c'']"

text \<open>
  The three turns of the first round run out, so that the room is in \<open>voting\<close>; the host
  restarts the game during the first turn, and during voting; a second socket creates a
  room and the library draws the code \<open>ABCD23\<close> again.
\<close>

definition voting_trace :: "Event list" where
  "voting_trace = drawing_trace @
     [TimerExpired ''ABCD23'' 0 21100, TimerExpired ''ABCD23'' 1 41200,
      TimerExpired ''ABCD23'' 2 61300]"

definition restart_drawing_trace :: "Event list" where
  "restart_drawing_trace = drawing_trace @ [GameStart ''a'' 0 1 1 5000]"

definition restart_voting_trace :: "Event list" where
  "restart_voting_trace = voting_trace @ [RoundNext ''a'' 0 1 1 70000]"

definition collision_trace :: "Event list" where
  "collision_trace = lobby_trace @ [RoomCreate ''z'' (Some ''Zoe'') ''ABCD23'']"


definition two_votes_leave_trace :: "Event list" where
  "two_votes_leave_trace = voting_trace @
     [VoteSubmit ''a'' ''b'' 0, VoteSubmit ''b'' ''c'' 0, Disconnect ''a'']"

definition late_vote_trace :: "Event list" where
  "late_vote_trace = two_votes_leave_trace @ [VoteSubmit ''c'' ''b'' 0]"

text \<open>
  Alice creates a room, Bob joins it, and Alice's socket creates a second room and then
  disconnects.
\<close>

definition host_elsewhere_trace :: "Event list" where
  "host_elsewhere_trace =
     [RoomCreate ''a'' (Some ''Alice'') ''ABCD23'',
      RoomJoin ''b'' (Some ''abcd23'') (Some ''Bob''),
      RoomCreate ''a'' (Some ''Alice'') ''WXYZ45'',
      Disconnect ''a'']"


section \<open>The suspected identity, in words\<close>

text \<open>
  The number of votes for an identity; the accusations are the values of the vote map in
  its order, which is the order in which the voters cast their first vote.
\<close>

definition votes_for :: "(string \<times> string) list \<Rightarrow> string \<Rightarrow> nat" where
  "votes_for vs x = count_list (map snd vs) x"

text \<open>The first accusation of an identity that no accused identity outnumbers.\<close>

definition first_most_accused :: "(string \<times> string) list \<Rightarrow> string option" where
  "first_most_accused vs =
     find (\<lambda>x. \<forall>y \<in> set (map snd vs). votes_for vs y \<le> votes_for vs x) (map snd vs)"

text \<open>
  The wording of the specification: the first accused identity to reach the maximum vote
  count, in the order of the votes. Vote \<open>n\<close> reaches the maximum when the identity it
  accuses has the maximum count among the votes up to and including it.
\<close>

definition max_votes :: "(string \<times> string) list \<Rightarrow> nat" where
  "max_votes vs = fold max (map (votes_for vs) (map snd vs)) 0"

definition first_to_reach_max :: "(string \<times> string) list \<Rightarrow> string option" where
  "first_to_reach_max vs =
     map_option (\<lambda>n. snd (vs ! n))
       (find (\<lambda>n. votes_for (take (Suc n) vs) (snd (vs ! n)) = max_votes vs) [0..<length vs])"

text \<open>The distinct elements of a list in the order of their first occurrence.\<close>

fun firsts :: "'a list \<Rightarrow> 'a list" where
  "firsts [] = []"
| "firsts (x # xs) = x # filter (\<lambda>y. y \<noteq> x) (firsts xs)"

text \<open>
  Four players; Dora is the imposter. Alice accuses Cara, Bob accuses Dora, Cara accuses
  Dora, Dora accuses Cara.
\<close>

definition tie_trace :: "Event list" where
  "tie_trace =
     [RoomCreate ''a'' (Some ''Alice'') ''ABCD23'',
      RoomJoin ''b'' (Some ''ABCD23'') (Some ''Bob''),
      RoomJoin ''c'' (Some ''ABCD23'') (Some ''Cara''),
      RoomJoin ''d'' (Some ''ABCD23'') (Some ''Dora''),
      GameStart ''a'' 3 0 0 1000,
      TimerExpired ''ABCD23'' 0 21100, TimerExpired ''ABCD23'' 1 41200,
      TimerExpired ''ABCD23'' 2 61300, TimerExpired ''ABCD23'' 3 81400,
      VoteSubmit ''a'' ''c'' 0, VoteSubmit ''b'' ''d'' 0, VoteSubmit ''c'' ''d'' 0,
      VoteSubmit ''d'' ''c'' 0]"

section \<open>Properties\<close>

subsection \<open>The snapshot\<close>

text \<open>
  C9. The snapshot \<open>roomView\<close> shows the imposter's identity only in phase \<open>results\<close>
  and shows \<open>null\<close> otherwise, and it does not depend on the real word, the decoy word or
  the vote map: changing these three fields of a room leaves its snapshot the same.
\<close>

theorem roomView_hides_secrets:
  "(phase room \<noteq> Results \<longrightarrow> v_imposterId (roomView room) = None) \<and>
   (phase room = Results \<longrightarrow> v_imposterId (roomView room) = imposterId room) \<and>
   roomView (room\<lparr>realWord := w, fakeWord := f, votes := vs\<rparr>) = roomView room"
  by (simp add: roomView_def leader_row_def)

theorem roomView_hides_secrets_witness:
  "phase (room_of drawing_trace) \<noteq> Results \<and>
   imposterId (room_of drawing_trace) = Some ''b'' \<and>
   v_imposterId (roomView (room_of drawing_trace)) = None \<and>
   roomView ((room_of drawing_trace)
       \<lparr>realWord := Some ''Haus'', fakeWord := None, votes := [(''a'', ''b'')]\<rparr>)
     = roomView (room_of drawing_trace)"
proof -
  have 1: "phase (room_of drawing_trace) \<noteq> Results"
    by code_simp
  have 2: "imposterId (room_of drawing_trace) = Some ''b''"
    by code_simp
  from 1 2 roomView_hides_secrets
    [where room = "room_of drawing_trace" and w = "Some ''Haus''" and f = None
       and vs = "[(''a'', ''b'')]"]
  show ?thesis by blast
qed

subsection \<open>What a disconnect leaves alone\<close>

text \<open>
  C10. When a player disconnects and is not the last player of the room, the handler
  changes only the player list (the departing player is removed, and the first player left
  may receive the host flag), the leaderboard entry of the departing player and the host
  identity. The phase, round, turn index, current drawer, deadline, stroke log, chat
  history and the timer are unchanged; so when the current drawer disconnects during
  \<open>drawing\<close> the turn goes on under the departed drawer's identity, with the timer armed.
\<close>

theorem disconnect_frame:
  assumes "socketToRoom s sid = Some c" and "c \<noteq> []" and "rooms s c = Some room"
    and "filter (\<lambda>p. pid p \<noteq> sid) (players room) \<noteq> []"
    and "room' = remove_player sid room"
  shows "disconnect sid s = s\<lparr>socketToRoom := (socketToRoom s)(sid := None),
                              rooms := (rooms s)(c \<mapsto> room')\<rparr> \<and>
         room' = room\<lparr>players := players room',
                      leaderboard := (leaderboard room)(sid := None),
                      hostId := hostId room'\<rparr> \<and>
         (players room' = filter (\<lambda>p. pid p \<noteq> sid) (players room) \<or>
          players room' = (hd (filter (\<lambda>p. pid p \<noteq> sid) (players room)))\<lparr>isHost := True\<rparr>
                            # tl (filter (\<lambda>p. pid p \<noteq> sid) (players room))) \<and>
         phase room' = phase room \<and> roundNo room' = roundNo room \<and>
         turnIndex room' = turnIndex room \<and> currentDrawerId room' = currentDrawerId room \<and>
         turnEndsAt room' = turnEndsAt room \<and> drawing room' = drawing room \<and>
         chat room' = chat room \<and> timerRef room' = timerRef room \<and>
         timeouts room' = timeouts room"
  using assms
  by (auto simp: disconnect_def leave_room_def remove_player_def Let_def split: list.splits)

theorem disconnect_frame_witness:
  "socketToRoom (exec init drawing_trace) ''a'' = Some ''ABCD23'' \<and>
   rooms (exec init drawing_trace) ''ABCD23'' = Some (room_of drawing_trace) \<and>
   filter (\<lambda>p. pid p \<noteq> ''a'') (players (room_of drawing_trace)) \<noteq> [] \<and>
   currentDrawerId (room_of drawing_trace) = Some ''a'' \<and>
   phase (room_of drawing_trace) = Drawing \<and>
   disconnect ''a'' (exec init drawing_trace) =
     (exec init drawing_trace)
       \<lparr>socketToRoom := (socketToRoom (exec init drawing_trace))(''a'' := None),
        rooms := (rooms (exec init drawing_trace))
                   (''ABCD23'' \<mapsto> remove_player ''a'' (room_of drawing_trace))\<rparr> \<and>
   currentDrawerId (remove_player ''a'' (room_of drawing_trace)) = Some ''a'' \<and>
   phase (remove_player ''a'' (room_of drawing_trace)) = Drawing \<and>
   timeouts (remove_player ''a'' (room_of drawing_trace)) = [True]"
proof -
  have 1: "socketToRoom (exec init drawing_trace) ''a'' = Some ''ABCD23''"
    by code_simp
  have "rooms (exec init drawing_trace) ''ABCD23'' \<noteq> None"
    by code_simp
  then have 2: "rooms (exec init drawing_trace) ''ABCD23'' = Some (room_of drawing_trace)"
    by (simp add: room_of_def)
  have 3: "filter (\<lambda>p. pid p \<noteq> ''a'') (players (room_of drawing_trace)) \<noteq> []"
    by code_simp
  have 4: "currentDrawerId (room_of drawing_trace) = Some ''a''"
    by code_simp
  have 5: "phase (room_of drawing_trace) = Drawing"
    by code_simp
  have 6: "timeouts (room_of drawing_trace) = [True]"
    by code_simp
  have 7: "''ABCD23'' \<noteq> []"
    by simp
  from disconnect_frame [OF 1 7 2 3 refl] 1 2 3 4 5 6
  show ?thesis by simp
qed

subsection \<open>Every reachable room satisfies the invariants\<close>

lemma reachable_exec: "reachable s \<Longrightarrow> reachable (exec s evs)"
proof (induction evs arbitrary: s)
  case Nil
  then show ?case by (simp add: exec_def)
next
  case (Cons e evs)
  from Cons.prems have "reachable (step e s)"
    by (rule reachable_step)
  then have "reachable (exec (step e s) evs)"
    by (rule Cons.IH)
  then show ?case by (simp add: exec_def)
qed

lemma obj_set_keys:
  "map fst (obj_set kvs k v) = (if k \<in> fst ` set kvs then map fst kvs else map fst kvs @ [k])"
  by (induction kvs) force+

lemma obj_set_distinct: "distinct (map fst kvs) \<Longrightarrow> distinct (map fst (obj_set kvs k v))"
  by (simp add: obj_set_keys)

lemma obj_set_map_of: "map_of (obj_set kvs k v) = (map_of kvs)(k \<mapsto> v)"
  by (induction kvs) auto

lemma startTurn_frame:
  "players (startTurn now room) = players room"
  "hostId (startTurn now room) = hostId room"
  "votes (startTurn now room) = votes room"
  by (simp_all add: startTurn_def armTimer_def clearTimer_def split: option.splits)

lemma update_False_nth:
  "i < length xs \<Longrightarrow> xs[j := False] ! i \<Longrightarrow> xs ! i \<and> i \<noteq> j"
  by (cases "i = j") simp_all

lemma clearTimer_none_pending:
  "timer_ok room \<Longrightarrow> h < length (timeouts (clearTimer room)) \<Longrightarrow> \<not> timeouts (clearTimer room) ! h"
  by (auto simp: timer_ok_def clearTimer_def split: option.splits dest: update_False_nth)

lemma clearTimer_length: "length (timeouts (clearTimer room)) = length (timeouts room)"
  by (simp add: clearTimer_def split: option.splits)

lemma armTimer_clearTimer_ok: "timer_ok room \<Longrightarrow> timer_ok (armTimer (clearTimer room))"
  unfolding timer_ok_def [of "armTimer (clearTimer room)"]
  using clearTimer_none_pending [of room]
  by (auto simp: armTimer_def nth_append)

lemma timer_ok_cong:
  "timeouts room' = timeouts room \<Longrightarrow> timerRef room' = timerRef room \<Longrightarrow>
   timer_ok room' = timer_ok room"
  by (simp add: timer_ok_def)

lemma startTurn_timer_ok: "timer_ok room \<Longrightarrow> timer_ok (startTurn now room)"
proof -
  assume ok: "timer_ok room"
  have "timer_ok (room\<lparr>phase := Voting, currentDrawerId := None, turnEndsAt := None\<rparr>)"
    using ok by (simp add: timer_ok_def)
  moreover have "timer_ok (armTimer (clearTimer (room\<lparr>phase := Drawing,
      currentDrawerId := Some (pid (players room ! turnIndex room)),
      turnEndsAt := Some (now + TURN_MS), drawing := []\<rparr>)))"
    using ok by (intro armTimer_clearTimer_ok) (simp add: timer_ok_def)
  ultimately show ?thesis
    using ok by (simp add: startTurn_def)
qed

lemma host_ok_cong:
  "players room' = players room \<Longrightarrow> hostId room' = hostId room \<Longrightarrow> host_ok room' = host_ok room"
  by (simp add: host_ok_def)

lemma votes_ok_cong: "votes room' = votes room \<Longrightarrow> votes_ok room' = votes_ok room"
  by (simp add: votes_ok_def)

lemma startTurn_inv: "room_inv room \<Longrightarrow> room_inv (startTurn now room)"
  using host_ok_cong [of "startTurn now room" room] votes_ok_cong [of "startTurn now room" room]
  by (simp add: room_inv_def startTurn_frame startTurn_timer_ok)

lemma timerFires_inv: "room_inv room \<Longrightarrow> room_inv (timerFires h now room)"
proof -
  assume inv: "room_inv room"
  have "room_inv (room\<lparr>timeouts := (timeouts room)[h := False], turnIndex := turnIndex room + 1\<rparr>)"
    using inv by (auto simp: room_inv_def host_ok_def timer_ok_def votes_ok_def dest: update_False_nth)
  then show ?thesis
    using inv by (simp add: timerFires_def timerCallback_def startTurn_inv)
qed

lemma startGame_inv: "room_inv room \<Longrightarrow> room_inv (startGame r i j now room)"
proof -
  assume inv: "room_inv room"
  have "room_inv (room\<lparr>roundNo := roundNo room + 1, turnIndex := 0, votes := [],
      imposterId := x, realWord := y, fakeWord := z\<rparr>)" for x y z
    using inv by (simp add: room_inv_def host_ok_def timer_ok_def votes_ok_def)
  then show ?thesis
    using inv by (simp add: startGame_def Let_def startTurn_inv split: prod.splits)
qed

lemma computeVoting_frame:
  "players (computeVoting ch room) = players room"
  "hostId (computeVoting ch room) = hostId room"
  "votes (computeVoting ch room) = votes room"
  "timeouts (computeVoting ch room) = timeouts room"
  "timerRef (computeVoting ch room) = timerRef room"
  "phase (computeVoting ch room) = Results"
  by (simp_all add: computeVoting_def Let_def)

lemma computeVoting_inv: "room_inv room \<Longrightarrow> room_inv (computeVoting ch room)"
  using host_ok_cong [of "computeVoting ch room" room]
    votes_ok_cong [of "computeVoting ch room" room]
    timer_ok_cong [of "computeVoting ch room" room]
  by (simp add: room_inv_def computeVoting_frame)

lemma vote_submit_inv: "room_inv room \<Longrightarrow> room_inv (vote_submit_room sid t ch room)"
proof -
  assume inv: "room_inv room"
  have "room_inv (room\<lparr>votes := obj_set (votes room) sid t\<rparr>)"
    using inv by (simp add: room_inv_def host_ok_def timer_ok_def votes_ok_def obj_set_distinct)
  then show ?thesis
    using inv by (simp add: vote_submit_room_def Let_def computeVoting_inv)
qed

lemma imposter_guess_inv: "room_inv room \<Longrightarrow> room_inv (fst (imposter_guess_room sid g room))"
  by (simp add: imposter_guess_room_def room_inv_def host_ok_def timer_ok_def votes_ok_def)

lemma draw_stroke_inv: "room_inv room \<Longrightarrow> room_inv (draw_stroke_room sid st room)"
  by (simp add: draw_stroke_room_def room_inv_def host_ok_def timer_ok_def votes_ok_def)

lemma chat_send_inv: "room_inv room \<Longrightarrow> room_inv (chat_send_room sid msg now room)"
  by (simp add: chat_send_room_def room_inv_def host_ok_def timer_ok_def votes_ok_def
      split: option.splits)

lemma game_start_inv: "room_inv room \<Longrightarrow> room_inv (game_start_room sid r i j now room)"
  by (simp add: game_start_room_def startGame_inv)

lemma new_room_inv: "room_inv (new_room sid nm c)"
  by (simp add: new_room_def new_player_def room_inv_def host_ok_def timer_ok_def votes_ok_def)

lemma join_inv:
  "room_inv room \<Longrightarrow>
   room_inv (room\<lparr>players := players room @ [new_player sid nm False], leaderboard := lb\<rparr>)"
  by (simp add: new_player_def room_inv_def host_ok_def timer_ok_def votes_ok_def)

lemma filter_hosts_kept:
  "\<forall>p \<in> set ps. isHost p \<longrightarrow> pid p \<noteq> sid \<Longrightarrow>
   filter isHost (filter (\<lambda>p. pid p \<noteq> sid) ps) = filter isHost ps"
  by (induction ps) auto

lemma filter_hosts_gone:
  "\<forall>p \<in> set ps. isHost p \<longrightarrow> pid p = sid \<Longrightarrow>
   filter isHost (filter (\<lambda>p. pid p \<noteq> sid) ps) = []"
  by (induction ps) auto

lemma remove_player_host_ok:
  assumes "host_ok room" and "players (remove_player sid room) \<noteq> []"
  shows "host_ok (remove_player sid room)"
proof (cases "hostId room = sid")
  case True
  with assms(1) have gone: "filter isHost (filter (\<lambda>p. pid p \<noteq> sid) (players room)) = []"
    by (intro filter_hosts_gone) (simp add: host_ok_def)
  obtain p ps' where ps: "filter (\<lambda>p. pid p \<noteq> sid) (players room) = p # ps'"
    using assms(2) by (cases "filter (\<lambda>p. pid p \<noteq> sid) (players room)")
      (auto simp: remove_player_def Let_def)
  from gone ps have "\<not> isHost p" and "filter isHost ps' = []"
    by (auto split: if_splits)
  then show ?thesis
    using True ps by (auto simp: remove_player_def Let_def host_ok_def filter_empty_conv)
next
  case False
  with assms(1) have kept: "filter isHost (filter (\<lambda>p. pid p \<noteq> sid) (players room))
      = filter isHost (players room)"
    by (intro filter_hosts_kept) (auto simp: host_ok_def)
  have "players (remove_player sid room) = filter (\<lambda>p. pid p \<noteq> sid) (players room)"
    and "hostId (remove_player sid room) = hostId room"
    using False by (simp_all add: remove_player_def Let_def split: list.splits)
  then show ?thesis
    using kept assms(1) by (simp add: host_ok_def del: filter_filter)
qed

lemma remove_player_inv:
  assumes "room_inv room" and "players (remove_player sid room) \<noteq> []"
  shows "room_inv (remove_player sid room)"
proof -
  have "timer_ok (remove_player sid room) = timer_ok room"
    by (intro timer_ok_cong) (simp_all add: remove_player_def Let_def split: list.splits)
  moreover have "votes_ok (remove_player sid room) = votes_ok room"
    by (intro votes_ok_cong) (simp add: remove_player_def Let_def split: list.splits)
  ultimately show ?thesis
    using assms remove_player_host_ok [of room sid] by (simp add: room_inv_def)
qed

lemma on_room_inv:
  assumes "\<And>room. room_inv room \<Longrightarrow> room_inv (f room)"
    and "\<And>c room. rooms s c = Some room \<Longrightarrow> room_inv room"
    and "rooms (on_room sid f s) c = Some room"
  shows "room_inv room"
  using assms
  by (auto simp: on_room_def lookup_room_def split: option.splits if_splits)

lemma step_inv:
  assumes all: "\<And>c room. rooms s c = Some room \<Longrightarrow> room_inv room"
    and new: "rooms (step e s) c = Some room"
  shows "room_inv room"
proof (cases e)
  case (RoomCreate sid nm c')
  then show ?thesis
    using all new by (auto simp: room_create_def new_room_inv split: if_splits)
next
  case (RoomJoin sid cd nm)
  then show ?thesis
    using all new by (auto simp: room_join_def Let_def join_inv split: option.splits if_splits)
next
  case (GameStart sid r i j now)
  then show ?thesis
    using on_room_inv [OF game_start_inv all] new by auto
next
  case (DrawStroke sid st)
  then show ?thesis
    using on_room_inv [OF draw_stroke_inv all] new by auto
next
  case (ChatSend sid msg now)
  then show ?thesis
    using on_room_inv [OF chat_send_inv all] new by auto
next
  case (VoteSubmit sid t ch)
  then show ?thesis
    using on_room_inv [OF vote_submit_inv all] new by auto
next
  case (ImposterGuess sid g)
  then show ?thesis
    using on_room_inv [OF imposter_guess_inv all] new by auto
next
  case (RoundNext sid r i j now)
  then show ?thesis
    using on_room_inv [OF game_start_inv all] new by auto
next
  case (Disconnect sid)
  then show ?thesis
    using all new remove_player_inv [of _ sid]
    by (auto simp: disconnect_def leave_room_def Let_def split: option.splits if_splits)
next
  case (TimerExpired c' h now)
  then show ?thesis
    using all new by (auto simp: timerFires_inv split: option.splits if_splits)
qed

lemma reachable_room_inv: "reachable s \<Longrightarrow> rooms s c = Some room \<Longrightarrow> room_inv room"
proof (induction arbitrary: c room rule: reachable.induct)
  case reachable_init
  then show ?case by (simp add: init_def)
next
  case (reachable_step s e)
  show ?case
    by (rule step_inv [OF reachable_step.IH reachable_step.prems])
qed

subsection \<open>The host flag\<close>

text \<open>
  C7 as stated fails. A socket is mapped to the room it created or joined last, and its
  disconnect is handled for that room only. Alice's socket leaves while it is mapped to
  her second room: in the first room Bob remains, Alice is still listed with the host
  flag, and the flag has not moved to Bob.
\<close>

theorem host_leaves_without_migration:
  "socketToRoom (exec init host_elsewhere_trace) ''a'' = None \<and>
   socketToRoom (exec init host_elsewhere_trace) ''b'' = Some ''ABCD23'' \<and>
   map pid (players (room_of host_elsewhere_trace)) = [''a'', ''b''] \<and>
   map isHost (players (room_of host_elsewhere_trace)) = [True, False] \<and>
   hostId (room_of host_elsewhere_trace) = ''a''"
  by code_simp

text \<open>
  C7, amended. In every reachable state of the server, every registered room has a
  non-empty player list in which exactly one player has \<open>isHost = true\<close>. When the
  disconnect of a socket is handled for a room (the room the socket is mapped to), the
  socket holds the host flag there and other players remain, then the first remaining
  player of the list gets the host flag and becomes the host identity, and again exactly
  one player is flagged.
\<close>

theorem exactly_one_host:
  assumes "reachable s" and "rooms s c = Some room"
  shows "players room \<noteq> [] \<and> length (filter isHost (players room)) = 1 \<and>
    (\<forall>sid p. socketToRoom s sid = Some c \<and> c \<noteq> [] \<and> p \<in> set (players room) \<and>
        pid p = sid \<and> isHost p \<and> filter (\<lambda>q. pid q \<noteq> sid) (players room) \<noteq> [] \<longrightarrow>
      (\<exists>room'. rooms (step (Disconnect sid) s) c = Some room' \<and>
         players room' = (hd (filter (\<lambda>q. pid q \<noteq> sid) (players room)))\<lparr>isHost := True\<rparr>
                           # tl (filter (\<lambda>q. pid q \<noteq> sid) (players room)) \<and>
         hostId room' = pid (hd (filter (\<lambda>q. pid q \<noteq> sid) (players room))) \<and>
         length (filter isHost (players room')) = 1))"
proof -
  from assms have inv: "host_ok room"
    using reachable_room_inv [of s c room] by (simp add: room_inv_def)
  then have one: "length (filter isHost (players room)) = 1"
    by (simp add: host_ok_def)
  then have nonempty: "players room \<noteq> []"
    by auto
  have migrate: "\<exists>room'. rooms (step (Disconnect sid) s) c = Some room' \<and>
         players room' = (hd (filter (\<lambda>q. pid q \<noteq> sid) (players room)))\<lparr>isHost := True\<rparr>
                           # tl (filter (\<lambda>q. pid q \<noteq> sid) (players room)) \<and>
         hostId room' = pid (hd (filter (\<lambda>q. pid q \<noteq> sid) (players room))) \<and>
         length (filter isHost (players room')) = 1"
    if reg: "socketToRoom s sid = Some c" "c \<noteq> []"
      and p: "p \<in> set (players room)" "pid p = sid" "isHost p"
      and rest: "filter (\<lambda>q. pid q \<noteq> sid) (players room) \<noteq> []"
    for sid p
  proof -
    from inv p have host: "hostId room = sid"
      by (auto simp: host_ok_def)
    obtain q qs where qs: "filter (\<lambda>q. pid q \<noteq> sid) (players room) = q # qs"
      using rest by (cases "filter (\<lambda>q. pid q \<noteq> sid) (players room)") auto
    have pl: "players (remove_player sid room) = q\<lparr>isHost := True\<rparr> # qs"
      and hi: "hostId (remove_player sid room) = pid q"
      using host qs by (simp_all add: remove_player_def Let_def)
    have new: "rooms (step (Disconnect sid) s) c = Some (remove_player sid room)"
      using reg assms(2) pl by (simp add: disconnect_def leave_room_def Let_def)
    have "reachable (step (Disconnect sid) s)"
      using assms(1) by (rule reachable_step)
    from reachable_room_inv [OF this new]
    have "length (filter isHost (players (remove_player sid room))) = 1"
      by (simp add: room_inv_def host_ok_def)
    with new pl hi qs show ?thesis
      by simp
  qed
  from one nonempty migrate show ?thesis
    by blast
qed

theorem exactly_one_host_witness:
  "reachable (exec init lobby_trace) \<and>
   rooms (exec init lobby_trace) ''ABCD23'' = Some (room_of lobby_trace) \<and>
   map pid (players (room_of lobby_trace)) = [''a'', ''b'', ''c''] \<and>
   map isHost (players (room_of lobby_trace)) = [True, False, False] \<and>
   socketToRoom (exec init lobby_trace) ''a'' = Some ''ABCD23'' \<and>
   length (filter isHost (players (room_of lobby_trace))) = 1 \<and>
   (\<exists>room'. rooms (step (Disconnect ''a'') (exec init lobby_trace)) ''ABCD23'' = Some room' \<and>
      players room' = (hd (filter (\<lambda>q. pid q \<noteq> ''a'') (players (room_of lobby_trace))))\<lparr>isHost := True\<rparr>
                        # tl (filter (\<lambda>q. pid q \<noteq> ''a'') (players (room_of lobby_trace))) \<and>
      hostId room' = ''b'' \<and>
      length (filter isHost (players room')) = 1)"
proof -
  have r: "reachable (exec init lobby_trace)"
    by (rule reachable_exec [OF reachable_init])
  have "rooms (exec init lobby_trace) ''ABCD23'' \<noteq> None"
    by code_simp
  then have m: "rooms (exec init lobby_trace) ''ABCD23'' = Some (room_of lobby_trace)"
    by (simp add: room_of_def)
  have ids: "map pid (players (room_of lobby_trace)) = [''a'', ''b'', ''c'']"
    by code_simp
  have flags: "map isHost (players (room_of lobby_trace)) = [True, False, False]"
    by code_simp
  have reg: "socketToRoom (exec init lobby_trace) ''a'' = Some ''ABCD23''"
    by code_simp
  have p: "hd (players (room_of lobby_trace)) \<in> set (players (room_of lobby_trace))"
    "pid (hd (players (room_of lobby_trace))) = ''a''"
    "isHost (hd (players (room_of lobby_trace)))"
    using ids flags by (cases "players (room_of lobby_trace)"; simp)+
  have rest: "filter (\<lambda>q. pid q \<noteq> ''a'') (players (room_of lobby_trace)) \<noteq> []"
    by code_simp
  have b: "pid (hd (filter (\<lambda>q. pid q \<noteq> ''a'') (players (room_of lobby_trace)))) = ''b''"
    by code_simp
  from exactly_one_host [OF r m] reg p rest
  have "length (filter isHost (players (room_of lobby_trace))) = 1 \<and>
    (\<exists>room'. rooms (step (Disconnect ''a'') (exec init lobby_trace)) ''ABCD23'' = Some room' \<and>
      players room' = (hd (filter (\<lambda>q. pid q \<noteq> ''a'') (players (room_of lobby_trace))))\<lparr>isHost := True\<rparr>
                        # tl (filter (\<lambda>q. pid q \<noteq> ''a'') (players (room_of lobby_trace))) \<and>
      hostId room' = pid (hd (filter (\<lambda>q. pid q \<noteq> ''a'') (players (room_of lobby_trace)))) \<and>
      length (filter isHost (players room')) = 1)"
    by blast
  with r m ids flags reg b show ?thesis
    by simp
qed

subsection \<open>The turn timer\<close>

text \<open>
  C4 as stated fails: after a correct guess during \<open>drawing\<close> the room is in \<open>results\<close>,
  the timeout of the turn is still pending, and when it expires the callback moves the room
  on to the next drawer.
\<close>

theorem timer_fires_after_guess:
  "phase (room_of guess_trace) = Results \<and>
   timeouts (room_of guess_trace) = [True] \<and>
   phase (room_of guess_timer_trace) = Drawing \<and>
   turnIndex (room_of guess_trace) = 0 \<and>
   turnIndex (room_of guess_timer_trace) = 1 \<and>
   currentDrawerId (room_of guess_timer_trace) = Some ''b''"
  by code_simp

text \<open>
  C4, amended. The callback of the turn timer has no guard: whenever it runs it adds one
  to the turn index and runs \<open>startTurn\<close>, which enters \<open>voting\<close> or the next \<open>drawing\<close>
  turn whatever the phase was. In every reachable room at most one timeout is pending,
  the one in \<open>timerRef\<close>. It is cancelled when a turn is started (by \<open>startTurn\<close>, and so by
  every \<open>startGame\<close> that takes effect), which arms a new one, and when the disconnect of
  the last player destroys the room: then no timeout of the room is pending.
\<close>

theorem timer_unguarded_cancelled_on_restart:
  assumes "reachable s" and "rooms s c = Some room"
  shows "turnIndex (timerCallback now room) = turnIndex room + 1 \<and>
    phase (timerCallback now room) =
      (if turnIndex room + 1 \<ge> length (players room) then Voting else Drawing) \<and>
    (\<forall>h h'. h < length (timeouts room) \<and> h' < length (timeouts room) \<and>
        timeouts room ! h \<and> timeouts room ! h' \<longrightarrow> h = h' \<and> timerRef room = Some h) \<and>
    (turnIndex room < length (players room) \<longrightarrow>
       (\<forall>h < length (timeouts room). \<not> timeouts (startTurn now room) ! h) \<and>
       timeouts (startTurn now room) ! length (timeouts room) \<and>
       timerRef (startTurn now room) = Some (length (timeouts room))) \<and>
    (3 \<le> length (players room) \<longrightarrow>
       (\<forall>h < length (timeouts room). \<not> timeouts (startGame r i j now room) ! h) \<and>
       timeouts (startGame r i j now room) ! length (timeouts room) \<and>
       timerRef (startGame r i j now room) = Some (length (timeouts room))) \<and>
    (\<forall>sid. snd (leave_room sid room) \<longrightarrow>
       (\<forall>h < length (timeouts (fst (leave_room sid room))).
          \<not> timeouts (fst (leave_room sid room)) ! h))"
proof -
  from assms have inv: "room_inv room"
    by (rule reachable_room_inv)
  then have tok: "timer_ok room" and hok: "host_ok room"
    by (simp_all add: room_inv_def)
  from hok have nonempty: "players room \<noteq> []"
    by (auto simp: host_ok_def)
  have 1: "turnIndex (timerCallback now room) = turnIndex room + 1"
    by (simp add: timerCallback_def startTurn_def armTimer_def clearTimer_def split: option.splits)
  have 2: "phase (timerCallback now room) =
      (if turnIndex room + 1 \<ge> length (players room) then Voting else Drawing)"
    using nonempty
    by (simp add: timerCallback_def startTurn_def armTimer_def clearTimer_def split: option.splits)
  have 3: "\<forall>h h'. h < length (timeouts room) \<and> h' < length (timeouts room) \<and>
        timeouts room ! h \<and> timeouts room ! h' \<longrightarrow> h = h' \<and> timerRef room = Some h"
    using tok unfolding timer_ok_def by (metis option.inject)
  have restart: "(\<forall>h < length (timeouts room'). \<not> timeouts (startTurn now room') ! h) \<and>
       timeouts (startTurn now room') ! length (timeouts room') \<and>
       timerRef (startTurn now room') = Some (length (timeouts room'))"
    if "timer_ok room'" "turnIndex room' < length (players room')" for room'
  proof -
    let ?r = "room'\<lparr>phase := Drawing,
        currentDrawerId := Some (pid (players room' ! turnIndex room')),
        turnEndsAt := Some (now + TURN_MS), drawing := []\<rparr>"
    have st: "startTurn now room' = armTimer (clearTimer ?r)"
      using that(2) by (auto simp: startTurn_def)
    have "timer_ok ?r"
      using that(1) by (simp add: timer_ok_def)
    then have none: "\<And>h. h < length (timeouts room') \<Longrightarrow> \<not> timeouts (clearTimer ?r) ! h"
      using clearTimer_none_pending [of ?r] by (simp add: clearTimer_length)
    have len: "length (timeouts (clearTimer ?r)) = length (timeouts room')"
      by (simp add: clearTimer_length)
    show ?thesis
      using none len by (simp add: st armTimer_def nth_append)
  qed
  have 4: "turnIndex room < length (players room) \<longrightarrow>
       (\<forall>h < length (timeouts room). \<not> timeouts (startTurn now room) ! h) \<and>
       timeouts (startTurn now room) ! length (timeouts room) \<and>
       timerRef (startTurn now room) = Some (length (timeouts room))"
    using restart [OF tok] by blast
  have 5: "3 \<le> length (players room) \<longrightarrow>
       (\<forall>h < length (timeouts room). \<not> timeouts (startGame r i j now room) ! h) \<and>
       timeouts (startGame r i j now room) ! length (timeouts room) \<and>
       timerRef (startGame r i j now room) = Some (length (timeouts room))"
  proof
    assume three: "3 \<le> length (players room)"
    obtain rw fw where pw: "pickWordPair i j = (rw, fw)"
      by (cases "pickWordPair i j")
    let ?r = "room\<lparr>roundNo := roundNo room + 1, turnIndex := 0, votes := [],
        imposterId := Some (pid (players room ! (r mod length (players room)))),
        realWord := Some rw, fakeWord := Some fw\<rparr>"
    have sg: "startGame r i j now room = startTurn now ?r"
      using three pw by (simp add: startGame_def Let_def)
    have "timer_ok ?r"
      using tok by (simp add: timer_ok_def)
    moreover have "turnIndex ?r < length (players ?r)"
      using nonempty by simp
    ultimately show "(\<forall>h < length (timeouts room). \<not> timeouts (startGame r i j now room) ! h) \<and>
       timeouts (startGame r i j now room) ! length (timeouts room) \<and>
       timerRef (startGame r i j now room) = Some (length (timeouts room))"
      using restart [of ?r] by (simp add: sg)
  qed
  have 6: "\<forall>sid. snd (leave_room sid room) \<longrightarrow>
       (\<forall>h < length (timeouts (fst (leave_room sid room))).
          \<not> timeouts (fst (leave_room sid room)) ! h)"
  proof (intro allI impI)
    fix sid h
    assume del: "snd (leave_room sid room)"
      and h: "h < length (timeouts (fst (leave_room sid room)))"
    from del have lr: "fst (leave_room sid room) = clearTimer (remove_player sid room)"
      by (simp add: leave_room_def Let_def split: if_splits)
    have "timer_ok (remove_player sid room) = timer_ok room"
      by (intro timer_ok_cong) (simp_all add: remove_player_def Let_def split: list.splits)
    with tok have "timer_ok (remove_player sid room)"
      by simp
    from clearTimer_none_pending [OF this] h lr
    show "\<not> timeouts (fst (leave_room sid room)) ! h"
      by simp
  qed
  from 1 2 3 4 5 6 show ?thesis
    by blast
qed
theorem timer_unguarded_cancelled_on_restart_witness:
  "reachable (exec init drawing_trace) \<and> reachable (exec init last_player_trace) \<and>
   rooms (exec init drawing_trace) ''ABCD23'' = Some (room_of drawing_trace) \<and>
   rooms (exec init last_player_trace) ''ABCD23'' = Some (room_of last_player_trace) \<and>
   timeouts (room_of drawing_trace) = [True] \<and>
   turnIndex (timerCallback 21100 (room_of drawing_trace)) = 1 \<and>
   phase (timerCallback 21100 (room_of drawing_trace)) = Drawing \<and>
   \<not> timeouts (startTurn 5000 (room_of drawing_trace)) ! 0 \<and>
   timeouts (startTurn 5000 (room_of drawing_trace)) ! 1 \<and>
   timerRef (startTurn 5000 (room_of drawing_trace)) = Some 1 \<and>
   \<not> timeouts (startGame 0 0 0 5000 (room_of drawing_trace)) ! 0 \<and>
   timeouts (startGame 0 0 0 5000 (room_of drawing_trace)) ! 1 \<and>
   timerRef (startGame 0 0 0 5000 (room_of drawing_trace)) = Some 1 \<and>
   timeouts (room_of last_player_trace) = [True] \<and>
   snd (leave_room ''a'' (room_of last_player_trace)) \<and>
   \<not> timeouts (fst (leave_room ''a'' (room_of last_player_trace))) ! 0"
proof -
  have r1: "reachable (exec init drawing_trace)"
    and r2: "reachable (exec init last_player_trace)"
    by (rule reachable_exec [OF reachable_init])+
  have "rooms (exec init drawing_trace) ''ABCD23'' \<noteq> None"
    by code_simp
  then have m1: "rooms (exec init drawing_trace) ''ABCD23'' = Some (room_of drawing_trace)"
    by (simp add: room_of_def)
  have "rooms (exec init last_player_trace) ''ABCD23'' \<noteq> None"
    by code_simp
  then have m2: "rooms (exec init last_player_trace) ''ABCD23'' = Some (room_of last_player_trace)"
    by (simp add: room_of_def)
  have t1: "timeouts (room_of drawing_trace) = [True]"
    by code_simp
  have i1: "turnIndex (room_of drawing_trace) = 0"
    by code_simp
  have n1: "length (players (room_of drawing_trace)) = 3"
    by code_simp
  have t2: "timeouts (room_of last_player_trace) = [True]"
    by code_simp
  have d2: "snd (leave_room ''a'' (room_of last_player_trace))"
    by code_simp
  have l2: "length (timeouts (fst (leave_room ''a'' (room_of last_player_trace)))) = 1"
    by code_simp
  from timer_unguarded_cancelled_on_restart [OF r1 m1, where now = 21100 and r = 0 and i = 0 and j = 0] i1 n1 t1
  have a: "turnIndex (timerCallback 21100 (room_of drawing_trace)) = 1 \<and>
      phase (timerCallback 21100 (room_of drawing_trace)) = Drawing"
    by simp
  from timer_unguarded_cancelled_on_restart [OF r1 m1, where now = 5000 and r = 0 and i = 0 and j = 0] i1 n1 t1
  have b: "\<not> timeouts (startTurn 5000 (room_of drawing_trace)) ! 0 \<and>
      timeouts (startTurn 5000 (room_of drawing_trace)) ! 1 \<and>
      timerRef (startTurn 5000 (room_of drawing_trace)) = Some 1 \<and>
      \<not> timeouts (startGame 0 0 0 5000 (room_of drawing_trace)) ! 0 \<and>
      timeouts (startGame 0 0 0 5000 (room_of drawing_trace)) ! 1 \<and>
      timerRef (startGame 0 0 0 5000 (room_of drawing_trace)) = Some 1"
    by simp
  from timer_unguarded_cancelled_on_restart [OF r2 m2, where now = 5000 and r = 0 and i = 0 and j = 0] d2 l2
  have c: "\<not> timeouts (fst (leave_room ''a'' (room_of last_player_trace))) ! 0"
    by simp
  from r1 r2 m1 m2 t1 t2 d2 a b c show ?thesis
    by simp
qed

subsection \<open>Starting a round\<close>

text \<open>
  C5 as stated fails: the host's \<open>game:start\<close> during \<open>drawing\<close> and the host's
  \<open>round:next\<close> during \<open>voting\<close> both start a new round.
\<close>

theorem start_during_drawing_and_voting:
  "phase (room_of drawing_trace) = Drawing \<and> roundNo (room_of drawing_trace) = 1 \<and>
   imposterId (room_of drawing_trace) = Some ''b'' \<and>
   roundNo (room_of restart_drawing_trace) = 2 \<and>
   imposterId (room_of restart_drawing_trace) = Some ''a'' \<and>
   realWord (room_of restart_drawing_trace) = Some ''Katze'' \<and>
   phase (room_of voting_trace) = Voting \<and> roundNo (room_of voting_trace) = 1 \<and>
   phase (room_of restart_voting_trace) = Drawing \<and>
   roundNo (room_of restart_voting_trace) = 2"
  by code_simp

text \<open>
  C5, amended. A \<open>game:start\<close> or \<open>round:next\<close> action takes effect exactly when its sender
  is the host of the sender's room and the room has at least three players, in every
  phase: the round number grows by one, the votes are cleared and the first player's
  \<open>drawing\<close> turn begins. Sent by anyone else, or with fewer than three players, the action
  leaves the server state unchanged. The two actions do the same.
\<close>

theorem start_game_host_only_any_phase:
  assumes "lookup_room sid s = Some (c, room)"
  shows "step (RoundNext sid r i j now) s = step (GameStart sid r i j now) s \<and>
    (hostId room = sid \<and> 3 \<le> length (players room) \<longrightarrow>
       (\<exists>room'. rooms (step (GameStart sid r i j now) s) c = Some room' \<and>
          roundNo room' = roundNo room + 1 \<and> phase room' = Drawing \<and>
          turnIndex room' = 0 \<and> votes room' = [] \<and>
          currentDrawerId room' = Some (pid (hd (players room))))) \<and>
    (hostId room \<noteq> sid \<or> length (players room) < 3 \<longrightarrow>
       step (GameStart sid r i j now) s = s)"
proof -
  from assms have reg: "rooms s c = Some room"
    by (auto simp: lookup_room_def split: option.splits if_splits)
  have st: "step (GameStart sid r i j now) s
      = s\<lparr>rooms := (rooms s)(c \<mapsto> game_start_room sid r i j now room)\<rparr>"
    using assms by (simp add: on_room_def)
  have eff: "roundNo (startGame r i j now room) = roundNo room + 1 \<and>
      phase (startGame r i j now room) = Drawing \<and>
      turnIndex (startGame r i j now room) = 0 \<and> votes (startGame r i j now room) = [] \<and>
      currentDrawerId (startGame r i j now room) = Some (pid (hd (players room)))"
    if "3 \<le> length (players room)"
    using that
    by (cases "players room")
      (auto simp: startGame_def startTurn_def armTimer_def clearTimer_def Let_def
        split: prod.splits option.splits)
  have drop: "step (GameStart sid r i j now) s = s"
    if "hostId room \<noteq> sid \<or> length (players room) < 3"
  proof -
    from that have "game_start_room sid r i j now room = room"
      by (auto simp: game_start_room_def startGame_def)
    with st reg show ?thesis
      by (simp add: map_upd_triv)
  qed
  from st eff drop show ?thesis
    by (auto simp: game_start_room_def)
qed

theorem start_game_host_only_any_phase_witness:
  "lookup_room ''a'' (exec init voting_trace) = Some (''ABCD23'', room_of voting_trace) \<and>
   lookup_room ''b'' (exec init voting_trace) = Some (''ABCD23'', room_of voting_trace) \<and>
   hostId (room_of voting_trace) = ''a'' \<and> length (players (room_of voting_trace)) = 3 \<and>
   phase (room_of voting_trace) = Voting \<and>
   (\<exists>room'. rooms (step (GameStart ''a'' 0 1 1 70000) (exec init voting_trace)) ''ABCD23''
        = Some room' \<and>
      roundNo room' = roundNo (room_of voting_trace) + 1 \<and> phase room' = Drawing \<and>
      turnIndex room' = 0 \<and> votes room' = []) \<and>
   step (GameStart ''b'' 0 1 1 70000) (exec init voting_trace) = exec init voting_trace"
proof -
  have sa: "socketToRoom (exec init voting_trace) ''a'' = Some ''ABCD23''"
    and sb: "socketToRoom (exec init voting_trace) ''b'' = Some ''ABCD23''"
    by code_simp+
  have "rooms (exec init voting_trace) ''ABCD23'' \<noteq> None"
    by code_simp
  then have m: "rooms (exec init voting_trace) ''ABCD23'' = Some (room_of voting_trace)"
    by (simp add: room_of_def)
  from sa sb m
  have la: "lookup_room ''a'' (exec init voting_trace) = Some (''ABCD23'', room_of voting_trace)"
    and lb: "lookup_room ''b'' (exec init voting_trace) = Some (''ABCD23'', room_of voting_trace)"
    by (simp_all add: lookup_room_def)
  have h: "hostId (room_of voting_trace) = ''a''"
    and n: "length (players (room_of voting_trace)) = 3"
    and p: "phase (room_of voting_trace) = Voting"
    by code_simp+
  from start_game_host_only_any_phase [OF la, where r = 0 and i = 1 and j = 1 and now = 70000] h n
  have a: "\<exists>room'. rooms (step (GameStart ''a'' 0 1 1 70000) (exec init voting_trace)) ''ABCD23''
        = Some room' \<and>
      roundNo room' = roundNo (room_of voting_trace) + 1 \<and> phase room' = Drawing \<and>
      turnIndex room' = 0 \<and> votes room' = []"
    by auto
  from start_game_host_only_any_phase [OF lb, where r = 0 and i = 1 and j = 1 and now = 70000] h
  have b: "step (GameStart ''b'' 0 1 1 70000) (exec init voting_trace) = exec init voting_trace"
    by simp
  from la lb h n p a b show ?thesis
    by simp
qed

subsection \<open>Room codes\<close>

text \<open>
  C8 as stated fails: when the generated code is the code of an existing room, the new
  room gets that same code and takes the place of the existing room in \<open>rooms\<close>, whose
  players stay registered under the code.
\<close>

theorem room_create_reuses_code:
  "rooms (exec init lobby_trace) ''ABCD23'' \<noteq> None \<and>
   map pid (players (room_of lobby_trace)) = [''a'', ''b'', ''c''] \<and>
   snd (room_create ''z'' (Some ''Zoe'') ''ABCD23'' (exec init lobby_trace)) = (''ABCD23'', ''z'') \<and>
   map pid (players (room_of collision_trace)) = [''z''] \<and>
   socketToRoom (exec init collision_trace) ''b'' = Some ''ABCD23''"
  by code_simp

text \<open>
  C8, amended. \<open>room:create\<close> uses the generated code as it is, without comparing it with
  the codes of the existing rooms and without a retry: the caller is told that code, the
  new room with the creator as its only player is registered under it, the creator's
  socket is mapped to it and every other entry of the two registries is kept. A room
  registered under the same code before is replaced.
\<close>

theorem room_create_registers_given_code:
  "snd (room_create sid nm c s) = (c, sid) \<and>
   rooms (fst (room_create sid nm c s)) c = Some (new_room sid nm c) \<and>
   map pid (players (new_room sid nm c)) = [sid] \<and> code (new_room sid nm c) = c \<and>
   socketToRoom (fst (room_create sid nm c s)) = (socketToRoom s)(sid \<mapsto> c) \<and>
   dom (rooms (fst (room_create sid nm c s))) = insert c (dom (rooms s)) \<and>
   (\<forall>c'. c' \<noteq> c \<longrightarrow> rooms (fst (room_create sid nm c s)) c' = rooms s c')"
  by (simp add: room_create_def new_room_def new_player_def)

theorem room_create_registers_given_code_witness:
  "rooms (exec init lobby_trace) ''ABCD23'' \<noteq> None \<and>
   rooms (exec init lobby_trace) ''WXYZ45'' = None \<and>
   rooms (fst (room_create ''z'' (Some ''Zoe'') ''ABCD23'' (exec init lobby_trace))) ''ABCD23''
     = Some (new_room ''z'' (Some ''Zoe'') ''ABCD23'') \<and>
   rooms (fst (room_create ''z'' (Some ''Zoe'') ''ABCD23'' (exec init lobby_trace))) ''WXYZ45''
     = None"
proof -
  have 1: "rooms (exec init lobby_trace) ''ABCD23'' \<noteq> None"
    and 2: "rooms (exec init lobby_trace) ''WXYZ45'' = None"
    by code_simp+
  have 3: "''WXYZ45'' \<noteq> ''ABCD23''"
    by simp
  from room_create_registers_given_code
    [where sid = "''z''" and nm = "Some ''Zoe''" and c = "''ABCD23''"
       and s = "exec init lobby_trace"] 1 2 3
  show ?thesis by simp
qed

subsection \<open>The vote map\<close>




subsection \<open>Resolving the vote\<close>

lemma obj_set_length:
  "length (obj_set kvs k v) = (if k \<in> fst ` set kvs then length kvs else length kvs + 1)"
  by (induction kvs) force+

text \<open>
  C3 as stated fails. Alice and Bob vote and Alice disconnects: the number of distinct
  voters equals the number of players, and the room stays in \<open>voting\<close>, unresolved. Cara's
  vote then resolves the voting with three distinct voters and two players.
\<close>

theorem voting_not_resolved_at_equality:
  "phase (room_of two_votes_leave_trace) = Voting \<and>
   map fst (votes (room_of two_votes_leave_trace)) = [''a'', ''b''] \<and>
   map pid (players (room_of two_votes_leave_trace)) = [''b'', ''c''] \<and>
   phase (room_of late_vote_trace) = Results \<and>
   map fst (votes (room_of late_vote_trace)) = [''a'', ''b'', ''c''] \<and>
   map pid (players (room_of late_vote_trace)) = [''b'', ''c'']"
  by code_simp

text \<open>
  C3, amended. A vote received outside \<open>voting\<close> is dropped. In \<open>voting\<close> the vote is
  stored under the voter's identity: a voter who votes again replaces the earlier choice
  and the number of distinct voters stays the same, a new voter adds one. The voting is
  resolved in that same call exactly when the number of distinct voters is then at least
  the number of current players; the phase is then \<open>results\<close>, so that later votes are
  dropped, and otherwise it stays \<open>voting\<close>.
\<close>

theorem vote_submit_resolves_at_threshold:
  assumes "reachable s" and "lookup_room sid s = Some (c, room)"
    and "vs' = obj_set (votes room) sid t"
  shows "rooms (step (VoteSubmit sid t ch) s) c = Some (vote_submit_room sid t ch room) \<and>
    (phase room \<noteq> Voting \<longrightarrow> vote_submit_room sid t ch room = room) \<and>
    (phase room = Voting \<longrightarrow>
       distinct (map fst (votes room)) \<and> distinct (map fst vs') \<and>
       map_of vs' = (map_of (votes room))(sid \<mapsto> t) \<and>
       length vs' = (if sid \<in> fst ` set (votes room) then length (votes room)
                     else length (votes room) + 1) \<and>
       vote_submit_room sid t ch room =
         (if length (players room) \<le> length vs' then computeVoting ch (room\<lparr>votes := vs'\<rparr>)
          else room\<lparr>votes := vs'\<rparr>) \<and>
       phase (vote_submit_room sid t ch room) =
         (if length (players room) \<le> length vs' then Results else Voting))"
proof -
  from assms(2) have reg: "rooms s c = Some room"
    by (auto simp: lookup_room_def split: option.splits if_splits)
  with assms(1) have "room_inv room"
    by (rule reachable_room_inv)
  then have d: "distinct (map fst (votes room))"
    by (simp add: room_inv_def votes_ok_def)
  have st: "rooms (step (VoteSubmit sid t ch) s) c = Some (vote_submit_room sid t ch room)"
    using assms(2) by (simp add: on_room_def)
  have len: "length vs' = (if sid \<in> fst ` set (votes room) then length (votes room)
                     else length (votes room) + 1)"
    by (simp add: assms(3) obj_set_length)
  have eq: "vote_submit_room sid t ch room =
         (if length (players room) \<le> length vs' then computeVoting ch (room\<lparr>votes := vs'\<rparr>)
          else room\<lparr>votes := vs'\<rparr>)" if "phase room = Voting"
    using that by (simp add: vote_submit_room_def Let_def assms(3))
  have ph: "phase (vote_submit_room sid t ch room) =
         (if length (players room) \<le> length vs' then Results else Voting)"
    if "phase room = Voting"
    using that by (simp add: eq computeVoting_frame)
  have drop: "vote_submit_room sid t ch room = room" if "phase room \<noteq> Voting"
    using that by (simp add: vote_submit_room_def)
  from st d len eq ph drop show ?thesis
    by (simp add: assms(3) obj_set_distinct obj_set_map_of)
qed

theorem vote_submit_resolves_at_threshold_witness:
  "reachable (exec init voting_trace) \<and>
   lookup_room ''a'' (exec init voting_trace) = Some (''ABCD23'', room_of voting_trace) \<and>
   phase (room_of voting_trace) = Voting \<and> votes (room_of voting_trace) = [] \<and>
   length (players (room_of voting_trace)) = 3 \<and>
   vote_submit_room ''a'' ''b'' 0 (room_of voting_trace)
     = (room_of voting_trace)\<lparr>votes := [(''a'', ''b'')]\<rparr> \<and>
   phase (vote_submit_room ''a'' ''b'' 0 (room_of voting_trace)) = Voting \<and>
   reachable (exec init drawing_trace) \<and>
   lookup_room ''a'' (exec init drawing_trace) = Some (''ABCD23'', room_of drawing_trace) \<and>
   phase (room_of drawing_trace) \<noteq> Voting \<and>
   vote_submit_room ''a'' ''b'' 0 (room_of drawing_trace) = room_of drawing_trace"
proof -
  have r1: "reachable (exec init voting_trace)" and r2: "reachable (exec init drawing_trace)"
    by (rule reachable_exec [OF reachable_init])+
  have "rooms (exec init voting_trace) ''ABCD23'' \<noteq> None"
    and "rooms (exec init drawing_trace) ''ABCD23'' \<noteq> None"
    and s1: "socketToRoom (exec init voting_trace) ''a'' = Some ''ABCD23''"
    and s2: "socketToRoom (exec init drawing_trace) ''a'' = Some ''ABCD23''"
    by code_simp+
  then have l1: "lookup_room ''a'' (exec init voting_trace) = Some (''ABCD23'', room_of voting_trace)"
    and l2: "lookup_room ''a'' (exec init drawing_trace) = Some (''ABCD23'', room_of drawing_trace)"
    by (auto simp: lookup_room_def room_of_def)
  have p1: "phase (room_of voting_trace) = Voting"
    and v1: "votes (room_of voting_trace) = []"
    and n1: "length (players (room_of voting_trace)) = 3"
    and p2: "phase (room_of drawing_trace) \<noteq> Voting"
    by code_simp+
  have o: "[(''a'', ''b'')] = obj_set (votes (room_of voting_trace)) ''a'' ''b''"
    by (simp add: v1)
  from vote_submit_resolves_at_threshold [OF r1 l1 o, of 0] p1 n1
  have a: "vote_submit_room ''a'' ''b'' 0 (room_of voting_trace)
        = (room_of voting_trace)\<lparr>votes := [(''a'', ''b'')]\<rparr> \<and>
      phase (vote_submit_room ''a'' ''b'' 0 (room_of voting_trace)) = Voting"
    by simp
  from vote_submit_resolves_at_threshold [OF r2 l2 refl, of _ 0] p2
  have b: "vote_submit_room ''a'' ''b'' 0 (room_of drawing_trace) = room_of drawing_trace"
    by simp
  from r1 r2 l1 l2 p1 v1 n1 p2 a b show ?thesis
    by simp
qed

subsection \<open>The imposter's guess\<close>

lemma add_win_funpow: "(add_win ^^ n) e = e\<lparr>wins := wins e + n\<rparr>"
  by (induction n) (simp_all add: add_win_def)

lemma add_loss_funpow: "(add_loss ^^ n) e = e\<lparr>losses := losses e + n\<rparr>"
  by (induction n) (simp_all add: add_loss_def)





subsection \<open>The suspected identity\<close>

lemma firsts_set: "set (firsts xs) = set xs"
  by (induction xs) auto

lemma firsts_distinct: "distinct (firsts xs)"
  by (induction xs) (auto simp: firsts_set)

lemma firsts_snoc: "firsts (xs @ [x]) = (if x \<in> set xs then firsts xs else firsts xs @ [x])"
  by (induction xs) (auto simp: firsts_set)

lemma find_filter_neq: "\<not> P x \<Longrightarrow> find P (filter (\<lambda>y. y \<noteq> x) ys) = find P ys"
  by (induction ys) auto

lemma find_firsts: "find P (firsts xs) = find P xs"
  by (induction xs) (auto simp: find_filter_neq)

lemma find_mapped: "find Q (map g ks) = map_option g (find (\<lambda>k. Q (g k)) ks)"
  by (induction ks) auto

lemma map_of_keys:
  "map_of (map (\<lambda>k. (k, c k)) ks) x = (if x \<in> set ks then Some (c x) else None)"
  by (induction ks) auto

lemma obj_set_map_in:
  "distinct ks \<Longrightarrow> x \<in> set ks \<Longrightarrow>
   obj_set (map (\<lambda>k. (k, c k)) ks) x v = map (\<lambda>k. (k, if k = x then v else c k)) ks"
  by (induction ks) auto

lemma obj_set_map_notin:
  "x \<notin> set ks \<Longrightarrow>
   obj_set (map (\<lambda>k. (k, c k)) ks) x v = map (\<lambda>k. (k, c k)) ks @ [(x, v)]"
  by (induction ks) auto

lemma proto_inherited: "''__proto__'' \<in> set inherited_names"
  by (simp add: inherited_names_def)

lemma tally_firsts:
  assumes "\<forall>x \<in> set xs. x \<notin> set inherited_names"
  shows "foldl tally_add [] xs = map (\<lambda>k. (k, Count (count_list xs k))) (firsts xs)"
  using assms
proof (induction xs rule: rev_induct)
  case Nil
  then show ?case by simp
next
  case (snoc x xs)
  then have ih: "foldl tally_add [] xs = map (\<lambda>k. (k, Count (count_list xs k))) (firsts xs)"
    and nx: "x \<notin> set inherited_names"
    by simp_all
  from nx proto_inherited have np: "x \<noteq> ''__proto__''"
    by auto
  show ?case
  proof (cases "x \<in> set xs")
    case True
    then have "tally_add (map (\<lambda>k. (k, Count (count_list xs k))) (firsts xs)) x
        = map (\<lambda>k. (k, if k = x then Count (count_list xs x + 1) else Count (count_list xs k)))
            (firsts xs)"
      using np
      by (simp add: tally_add_def map_of_keys obj_set_map_in firsts_set firsts_distinct)
    also have "\<dots> = map (\<lambda>k. (k, Count (count_list (xs @ [x]) k))) (firsts xs)"
      by (rule map_cong) auto
    finally show ?thesis
      using True by (simp add: ih firsts_snoc)
  next
    case False
    then have a: "tally_add (map (\<lambda>k. (k, Count (count_list xs k))) (firsts xs)) x
        = map (\<lambda>k. (k, Count (count_list xs k))) (firsts xs) @ [(x, Count 1)]"
      using np nx
      by (simp add: tally_add_def map_of_keys obj_set_map_notin firsts_set)
    have b: "map (\<lambda>k. (k, Count (count_list (xs @ [x]) k))) (firsts xs)
        = map (\<lambda>k. (k, Count (count_list xs k))) (firsts xs)"
      using False by (intro map_cong) (auto simp: firsts_set)
    have c: "count_list (xs @ [x]) x = 1"
      using False by (simp add: count_list_0_iff)
    have "map (\<lambda>k. (k, Count (count_list (xs @ [x]) k))) (firsts (xs @ [x]))
        = map (\<lambda>k. (k, Count (count_list (xs @ [x]) k))) (firsts xs)
            @ [(x, Count (count_list (xs @ [x]) x))]"
      using False by (simp only: firsts_snoc if_False map_append list.map)
    also have "\<dots> = map (\<lambda>k. (k, Count (count_list xs k))) (firsts xs) @ [(x, Count 1)]"
      by (simp only: b c)
    finally show ?thesis
      by (simp only: foldl_append foldl.simps ih a)
  qed
qed

lemma own_entries_plain:
  "\<forall>e \<in> set kvs. \<not> is_array_index (fst e) \<Longrightarrow> own_entries kvs = kvs"
  by (simp add: own_entries_def filter_id_conv filter_empty_conv)

lemma head_of_stable_sort:
  "(case sort_key f t of [] \<Rightarrow> None | e # _ \<Rightarrow> Some e)
     = find (\<lambda>e. \<forall>e' \<in> set t. f e \<le> f e') t"
proof (induction t)
  case Nil
  then show ?case by simp
next
  case (Cons x t)
  show ?case
  proof (cases "sort_key f t")
    case Nil
    then have "t = []"
      by (metis length_sort list.size(3) length_0_conv)
    then show ?thesis by simp
  next
    case (Cons m ms)
    with Cons.IH have fm: "find (\<lambda>e. \<forall>e' \<in> set t. f e \<le> f e') t = Some m"
      by simp
    then obtain i where i: "i < length t" "t ! i = m" "\<forall>e' \<in> set t. f m \<le> f e'"
      "\<forall>j < i. \<not> (\<forall>e' \<in> set t. f (t ! j) \<le> f e')"
      unfolding find_Some_iff by blast
    show ?thesis
    proof (cases "f x \<le> f m")
      case True
      with i(3) have "\<forall>e' \<in> set (x # t). f x \<le> f e'"
        by auto
      then show ?thesis
        using True Cons by simp
    next
      case False
      have mt: "m \<in> set t"
        using i(1,2) by auto
      with False have nx: "\<not> (\<forall>e' \<in> set (x # t). f x \<le> f e')"
        by auto
      have "find (\<lambda>e. \<forall>e' \<in> set (x # t). f e \<le> f e') t = Some m"
        unfolding find_Some_iff
      proof (intro exI [of _ i] conjI allI impI)
        show "i < length t" by (rule i(1))
        show "\<forall>e' \<in> set (x # t). f (t ! i) \<le> f e'"
          using i(2,3) False by auto
        show "m = t ! i" using i(2) by simp
        fix j assume "j < i"
        with i(4) show "\<not> (\<forall>e' \<in> set (x # t). f (t ! j) \<le> f e')"
          by auto
      qed
      then show ?thesis
        using False Cons nx by auto
    qed
  qed
qed

lemma suspected_first_most_accused:
  assumes "\<forall>x \<in> snd ` set (votes room). plain_key x"
  shows "suspected ch room = first_most_accused (votes room)"
proof -
  let ?A = "map snd (votes room)"
  let ?g = "\<lambda>k. (k, Count (count_list ?A k))"
  let ?f = "\<lambda>e :: string \<times> TallyVal. - int (count_of (snd e))"
  let ?t = "map ?g (firsts ?A)"
  from assms have pk: "\<forall>x \<in> set ?A. \<not> is_array_index x \<and> x \<notin> set inherited_names"
    by (simp add: plain_key_def)
  then have t: "tally_of (votes room) = ?t"
    by (simp add: tally_of_def tally_firsts)
  have own: "own_entries ?t = ?t"
    using pk by (intro own_entries_plain) (simp add: firsts_set)
  have num: "list_all (\<lambda>e. snd e \<noteq> Text) ?t"
    by (simp add: list_all_iff)
  have "first_sorted ch ?t = (case sort_key ?f ?t of [] \<Rightarrow> None | e # _ \<Rightarrow> Some e)"
    using num by (cases "firsts ?A") (simp_all add: first_sorted_def)
  also have "\<dots> = find (\<lambda>e. \<forall>e' \<in> set ?t. ?f e \<le> ?f e') ?t"
    by (simp only: head_of_stable_sort)
  finally have "suspected ch room
      = map_option fst (find (\<lambda>e. \<forall>e' \<in> set ?t. ?f e \<le> ?f e') ?t)"
    by (simp only: suspected_def t own)
  also have "\<dots> = find (\<lambda>k. \<forall>y \<in> set ?A. count_list ?A y \<le> count_list ?A k) (firsts ?A)"
    by (simp add: find_mapped firsts_set option.map_comp comp_def option.map_ident count_of_def)
  also have "\<dots> = first_most_accused (votes room)"
    by (simp add: find_firsts first_most_accused_def votes_for_def)
  finally show ?thesis .
qed

lemma foldl_score_vote:
  "foldl (score_vote iw imp) lb ps k =
     (case find (\<lambda>p. pid p = k) ps of
        None \<Rightarrow> lb k
      | Some p \<Rightarrow>
          Some (((if iw = (Some k = imp) then add_win else add_loss)
                   ^^ count_list (map pid ps) k)
                  (entry_or lb k \<lparr>wins = wins p, losses = losses p\<rparr>)))"
proof (induction ps arbitrary: lb)
  case Nil
  then show ?case by simp
next
  case (Cons p ps)
  let ?b = "if iw = (Some k = imp) then add_win else add_loss"
  show ?case
  proof (cases "pid p = k")
    case True
    let ?e = "entry_or lb k \<lparr>wins = wins p, losses = losses p\<rparr>"
    have v: "score_vote iw imp lb p k = Some (?b ?e)"
      and e: "entry_or (score_vote iw imp lb p) k d = ?b ?e" for d
      using True by (auto simp: score_vote_def entry_or_def Let_def)
    have n: "find (\<lambda>p. pid p = k) ps = None \<Longrightarrow> count_list (map pid ps) k = 0"
      by (auto simp: find_None_iff count_list_0_iff)
    show ?thesis
    proof (cases "find (\<lambda>p. pid p = k) ps")
      case None
      with True v n Cons.IH [of "score_vote iw imp lb p"] show ?thesis
        by simp
    next
      case (Some q)
      with True e Cons.IH [of "score_vote iw imp lb p"] show ?thesis
        by (simp add: funpow_swap1)
    qed
  next
    case False
    have "entry_or (score_vote iw imp lb p) k d = entry_or lb k d"
      and "score_vote iw imp lb p k = lb k" for d
      using False by (simp_all add: score_vote_def entry_or_def Let_def)
    then show ?thesis
      using False Cons.IH [of "score_vote iw imp lb p"]
      by (cases "find (\<lambda>p. pid p = k) ps") simp_all
  qed
qed

text \<open>
  C1 as stated fails. With the votes Alice for Cara, Bob for Dora, Cara for Dora, Dora for
  Cara, the first identity to reach the maximum count of two is Dora (at the third vote),
  but \<open>computeVoting\<close> suspects Cara, who was accused first; Dora is the imposter, so the
  code lets the imposter win where the stated rule suspects the imposter.
\<close>

theorem suspected_not_first_to_reach_max:
  "votes (room_of tie_trace) = [(''a'', ''c''), (''b'', ''d''), (''c'', ''d''), (''d'', ''c'')] \<and>
   phase (room_of tie_trace) = Results \<and>
   imposterId (room_of tie_trace) = Some ''d'' \<and>
   first_to_reach_max (votes (room_of tie_trace)) = Some ''d'' \<and>
   (\<forall>ch. suspected ch (room_of tie_trace) = Some ''c'') \<and>
   (\<forall>ch. imposterWins ch (room_of tie_trace))"
proof -
  have v: "votes (room_of tie_trace)
      = [(''a'', ''c''), (''b'', ''d''), (''c'', ''d''), (''d'', ''c'')]"
    and p: "phase (room_of tie_trace) = Results"
    and i: "imposterId (room_of tie_trace) = Some ''d''"
    and f: "first_to_reach_max (votes (room_of tie_trace)) = Some ''d''"
    and m: "first_most_accused (votes (room_of tie_trace)) = Some ''c''"
    and k: "plain_key ''c'' \<and> plain_key ''d''"
    by code_simp+
  from v k have "\<forall>x \<in> snd ` set (votes (room_of tie_trace)). plain_key x"
    by simp
  then have s: "suspected ch (room_of tie_trace) = Some ''c''" for ch
    using m by (simp add: suspected_first_most_accused)
  then have w: "imposterWins ch (room_of tie_trace)" for ch
    using i by (simp add: imposterWins_def)
  from v p i f s w show ?thesis
    by simp
qed

text \<open>
  C1, amended. When the accused identities are ordinary keys (neither array-index strings
  nor names of properties inherited from \<open>Object.prototype\<close>; socket ids are ordinary),
  the suspected identity is, among the accused identities with the maximum vote count,
  the one that is accused first in the order of the vote map (the order in which the
  voters cast their first vote): no identity has more votes, and it is undefined exactly
  when there is no vote. The imposter's side wins the round if and only if the suspected
  identity differs from the imposter's identity; with no votes the suspected identity is
  undefined and the imposter's side wins. When the imposter's side wins, \<open>computeVoting\<close>
  adds a win to the imposter's record and a loss to every other player's, and the reverse
  otherwise, once for each entry of the player list, and the room goes to \<open>results\<close>.
\<close>

theorem suspected_is_first_most_accused:
  assumes "\<forall>x \<in> snd ` set (votes room). plain_key x"
  shows "suspected ch room = first_most_accused (votes room) \<and>
   (\<forall>x. suspected ch room = Some x \<longrightarrow>
      x \<in> snd ` set (votes room) \<and>
      (\<forall>y. votes_for (votes room) y \<le> votes_for (votes room) x)) \<and>
   (votes room = [] \<longrightarrow> suspected ch room = None \<and> imposterWins ch room) \<and>
   (votes room \<noteq> [] \<longrightarrow> suspected ch room \<noteq> None) \<and>
   (imposterWins ch room \<longleftrightarrow>
      (\<forall>x. suspected ch room = Some x \<longrightarrow> imposterId room \<noteq> Some x)) \<and>
   phase (computeVoting ch room) = Results \<and>
   (\<forall>k. leaderboard (computeVoting ch room) k =
      (if truthy (imposterId room)
       then (case find (\<lambda>p. pid p = k) (players room) of
               None \<Rightarrow> leaderboard room k
             | Some p \<Rightarrow>
                 Some (let e = entry_or (leaderboard room) k \<lparr>wins = wins p, losses = losses p\<rparr>;
                           n = count_list (map pid (players room)) k
                       in if imposterWins ch room = (imposterId room = Some k)
                          then e\<lparr>wins := wins e + n\<rparr> else e\<lparr>losses := losses e + n\<rparr>))
       else leaderboard room k))"
proof -
  let ?A = "map snd (votes room)"
  have 1: "suspected ch room = first_most_accused (votes room)"
    using assms by (rule suspected_first_most_accused)
  have 2: "x \<in> snd ` set (votes room) \<and>
      (\<forall>y. votes_for (votes room) y \<le> votes_for (votes room) x)"
    if "suspected ch room = Some x" for x
  proof -
    from that 1 have "find (\<lambda>x. \<forall>y \<in> set ?A. votes_for (votes room) y \<le> votes_for (votes room) x) ?A
        = Some x"
      by (simp add: first_most_accused_def)
    then obtain i where i: "i < length ?A" "x = ?A ! i"
      and mx: "\<forall>y \<in> set ?A. votes_for (votes room) y \<le> votes_for (votes room) x"
      unfolding find_Some_iff by blast
    from i have mem: "x \<in> set ?A"
      by simp
    have "votes_for (votes room) y \<le> votes_for (votes room) x" for y
    proof (cases "y \<in> set ?A")
      case True
      with mx show ?thesis by blast
    next
      case False
      then have "votes_for (votes room) y = 0"
        by (simp add: votes_for_def count_list_0_iff)
      then show ?thesis by simp
    qed
    with mem show ?thesis
      by simp
  qed
  have 3: "suspected ch room = None \<and> imposterWins ch room" if "votes room = []"
    using that 1 by (simp add: imposterWins_def first_most_accused_def)
  have 4: "suspected ch room \<noteq> None" if "votes room \<noteq> []"
  proof -
    have fin: "finite (votes_for (votes room) ` set ?A)" and ne: "votes_for (votes room) ` set ?A \<noteq> {}"
      using that by simp_all
    from Max_in [OF fin ne]
    have "\<exists>x \<in> set ?A. Max (votes_for (votes room) ` set ?A) = votes_for (votes room) x"
      by (simp only: image_iff)
    then obtain x where x: "x \<in> set ?A"
      "Max (votes_for (votes room) ` set ?A) = votes_for (votes room) x" ..
    have "\<forall>y \<in> set ?A. votes_for (votes room) y \<le> votes_for (votes room) x"
      using Max_ge [OF fin] by (simp only: x(2) [symmetric]) blast
    with x(1) have "find (\<lambda>x. \<forall>y \<in> set ?A. votes_for (votes room) y \<le> votes_for (votes room) x) ?A
        \<noteq> None"
      unfolding find_None_iff by blast
    with 1 show ?thesis
      by (simp add: first_most_accused_def)
  qed
  have 5: "imposterWins ch room \<longleftrightarrow>
      (\<forall>x. suspected ch room = Some x \<longrightarrow> imposterId room \<noteq> Some x)"
    by (simp add: imposterWins_def split: option.splits)
  have 6: "phase (computeVoting ch room) = Results"
    by (simp add: computeVoting_def Let_def)
  have 7: "leaderboard (computeVoting ch room) k =
      (if truthy (imposterId room)
       then (case find (\<lambda>p. pid p = k) (players room) of
               None \<Rightarrow> leaderboard room k
             | Some p \<Rightarrow>
                 Some (let e = entry_or (leaderboard room) k \<lparr>wins = wins p, losses = losses p\<rparr>;
                           n = count_list (map pid (players room)) k
                       in if imposterWins ch room = (imposterId room = Some k)
                          then e\<lparr>wins := wins e + n\<rparr> else e\<lparr>losses := losses e + n\<rparr>))
       else leaderboard room k)" for k
  proof (cases "truthy (imposterId room)")
    case True
    have eq: "(Some k = imposterId room) = (imposterId room = Some k)"
      by auto
    show ?thesis
      using True
      by (simp add: computeVoting_def foldl_score_vote [of _ _ _ _ k] eq Let_def
          add_win_funpow add_loss_funpow split: option.splits)
  next
    case False
    then show ?thesis
      by (simp add: computeVoting_def)
  qed
  from 1 2 3 4 5 6 7 show ?thesis
    by blast
qed

theorem suspected_is_first_most_accused_witness:
  "votes (room_of voting_trace) = [] \<and> suspected 0 (room_of voting_trace) = None \<and>
   imposterWins 0 (room_of voting_trace) \<and>
   votes (room_of late_vote_trace) = [(''a'', ''b''), (''b'', ''c''), (''c'', ''b'')] \<and>
   plain_key ''b'' \<and> plain_key ''c'' \<and>
   first_most_accused (votes (room_of late_vote_trace)) = Some ''b'' \<and>
   suspected 0 (room_of late_vote_trace) = Some ''b'' \<and>
   imposterId (room_of late_vote_trace) = Some ''b'' \<and>
   \<not> imposterWins 0 (room_of late_vote_trace)"
proof -
  have v0: "votes (room_of voting_trace) = []"
    and v1: "votes (room_of late_vote_trace) = [(''a'', ''b''), (''b'', ''c''), (''c'', ''b'')]"
    and f1: "first_most_accused (votes (room_of late_vote_trace)) = Some ''b''"
    and i1: "imposterId (room_of late_vote_trace) = Some ''b''"
    and k: "plain_key ''b''" "plain_key ''c''"
    by code_simp+
  from v0 have h0: "\<forall>x \<in> snd ` set (votes (room_of voting_trace)). plain_key x"
    by simp
  from v1 k have h1: "\<forall>x \<in> snd ` set (votes (room_of late_vote_trace)). plain_key x"
    by simp
  from suspected_is_first_most_accused [OF h0, of 0] v0
  have a: "suspected 0 (room_of voting_trace) = None \<and> imposterWins 0 (room_of voting_trace)"
    by blast
  from suspected_is_first_most_accused [OF h1, of 0] f1
  have b: "suspected 0 (room_of late_vote_trace) = Some ''b''"
    and c: "imposterWins 0 (room_of late_vote_trace) \<longleftrightarrow>
      (\<forall>x. suspected 0 (room_of late_vote_trace) = Some x \<longrightarrow> imposterId (room_of late_vote_trace) \<noteq> Some x)"
    by simp_all
  from b c i1 have d: "\<not> imposterWins 0 (room_of late_vote_trace)"
    by simp
  from v0 v1 k f1 i1 a b d show ?thesis
    by simp
qed

end
